theory Spec2Isabelle
  imports Complex_Main "HOL-Library.AList" "HOL-Library.Char_ord" "HOL-Library.List_Lexorder"
begin

section \<open>Python values shared by the three modules\<close>

text \<open>
  Exceptions are values. \<open>ValueError\<close> carries its message, \<open>KeyError\<close> the
  missing dictionary key (ring positions are the only keys read with \<open>d[k]\<close>).
\<close>

datatype error = ValueError string | KeyError nat | IndexError

text \<open>\<open>str(i)\<close> of a non-negative integer: its decimal digits.\<close>

fun str_nat :: "nat \<Rightarrow> string" where
  "str_nat n =
     (if n < 10 then [char_of (48 + n)]
      else str_nat (n div 10) @ [char_of (48 + n mod 10)])"

declare str_nat.simps [simp del]

text \<open>\<open>str(e)\<close> of an exception, as \<open>f"ERROR {str(e)}"\<close> prints it.\<close>

fun str_error :: "error \<Rightarrow> string" where
  "str_error (ValueError msg) = msg"
| "str_error (KeyError k) = str_nat k"
| "str_error IndexError = ''list index out of range''"

section \<open>hashing.py: the consistent hash ring\<close>

text \<open>
  \<open>ring\<close> is the dict \<open>hash_value -> node_id\<close>, kept as an association list in
  insertion order: \<open>d[k] = v\<close> is \<open>AList.update\<close> (overwrite in place, or append),
  \<open>del d[k]\<close> is \<open>AList.delete\<close>. \<open>sorted_keys\<close> is the sorted list of
  positions, \<open>nodes\<close> the set of physical node ids.

  \<open>_hash\<close> is SHA-256 of the UTF-8 bytes read as an integer. It comes from
  \<open>hashlib\<close>, not from this repository, so every ring operation takes the digest
  as its first argument \<open>H\<close>.
\<close>

record hash_ring =
  ring :: "(nat \<times> string) list"
  sorted_keys :: "nat list"
  nodes :: "string set"

definition VIRTUAL_NODES :: nat where
  "VIRTUAL_NODES = 3"

definition empty_ring :: hash_ring where
  "empty_ring = \<lparr>ring = [], sorted_keys = [], nodes = {}\<rparr>"

definition virtual_key :: "string \<Rightarrow> nat \<Rightarrow> string" where
  "virtual_key node_id i = node_id @ '':virtual:'' @ str_nat i"

definition add_node :: "(string \<Rightarrow> nat) \<Rightarrow> hash_ring \<Rightarrow> string \<Rightarrow> hash_ring" where
  "add_node H r node_id =
     (if node_id \<in> nodes r then r
      else
        let ring' = foldl (\<lambda>m i. AList.update (H (virtual_key node_id i)) node_id m)
                      (ring r) [0..<VIRTUAL_NODES]
        in \<lparr>ring = ring', sorted_keys = sort (map fst ring'),
            nodes = insert node_id (nodes r)\<rparr>)"

definition remove_node :: "hash_ring \<Rightarrow> string \<Rightarrow> hash_ring" where
  "remove_node r node_id =
     (if node_id \<notin> nodes r then r
      else
        let hash_values_to_remove =
              filter (\<lambda>h. map_of (ring r) h = Some node_id) (map fst (ring r));
            ring' = foldl (\<lambda>m h. AList.delete h m) (ring r) hash_values_to_remove
        in \<lparr>ring = ring', sorted_keys = sort (map fst ring'),
            nodes = nodes r - {node_id}\<rparr>)"

text \<open>
  \<open>bisect.bisect_right(a, x)\<close>, as the standard library's loop:
  \<^verbatim>\<open>while lo < hi: mid = (lo + hi) // 2; if x < a[mid]: hi = mid else: lo = mid + 1\<close>
\<close>

function bisect_loop :: "nat list \<Rightarrow> nat \<Rightarrow> nat \<Rightarrow> nat \<Rightarrow> nat" where
  "bisect_loop a x lo hi =
     (if lo < hi then
        (let mid = (lo + hi) div 2
         in if x < a ! mid then bisect_loop a x lo mid
            else bisect_loop a x (mid + 1) hi)
      else lo)"
  by pat_completeness auto
termination
  by (relation "measure (\<lambda>(a, x, lo, hi). hi - lo)") auto

declare bisect_loop.simps [simp del]

definition bisect_right :: "nat list \<Rightarrow> nat \<Rightarrow> nat" where
  "bisect_right a x = bisect_loop a x 0 (length a)"

text \<open>\<open>self.ring[k]\<close>: a missing key raises \<open>KeyError\<close>.\<close>

definition ring_lookup :: "hash_ring \<Rightarrow> nat \<Rightarrow> error + string" where
  "ring_lookup r k =
     (case map_of (ring r) k of None \<Rightarrow> Inl (KeyError k) | Some node_id \<Rightarrow> Inr node_id)"

definition get_node :: "(string \<Rightarrow> nat) \<Rightarrow> hash_ring \<Rightarrow> string \<Rightarrow> error + string" where
  "get_node H r key =
     (if ring r = [] then Inl (ValueError ''Ring is empty, no nodes available'')
      else
        let hash_value = H key;
            idx = bisect_right (sorted_keys r) hash_value;
            idx = (if idx = length (sorted_keys r) then 0 else idx)
        in if idx < length (sorted_keys r) then ring_lookup r (sorted_keys r ! idx)
           else Inl IndexError)"

text \<open>
  The body of the \<open>for i in range(len(self.sorted_keys))\<close> loop of \<open>get_nodes\<close>,
  over the indices still to visit; \<open>ns\<close> is the list \<open>nodes\<close> built so far and
  \<open>seen\<close> the set beside it. Reaching \<open>count\<close> collected ids is the \<open>break\<close>.
\<close>

fun collect_nodes ::
  "hash_ring \<Rightarrow> nat \<Rightarrow> int \<Rightarrow> nat list \<Rightarrow> string list \<Rightarrow> string set \<Rightarrow> error + string list"
where
  "collect_nodes r idx count [] ns seen = Inr ns"
| "collect_nodes r idx count (i # is) ns seen =
     (let current_idx = (idx + i) mod length (sorted_keys r)
      in case ring_lookup r (sorted_keys r ! current_idx) of
           Inl e \<Rightarrow> Inl e
         | Inr node_id \<Rightarrow>
             if node_id \<notin> seen then
               (let ns' = ns @ [node_id]; seen' = insert node_id seen
                in if int (length ns') = count then Inr ns'
                   else collect_nodes r idx count is ns' seen')
             else collect_nodes r idx count is ns seen)"

definition get_nodes ::
  "(string \<Rightarrow> nat) \<Rightarrow> hash_ring \<Rightarrow> string \<Rightarrow> int \<Rightarrow> error + string list"
where
  "get_nodes H r key count =
     (if ring r = [] then Inl (ValueError ''Ring is empty, no nodes available'')
      else
        let count = (if int (card (nodes r)) < count then int (card (nodes r)) else count);
            hash_value = H key;
            idx = bisect_right (sorted_keys r) hash_value;
            idx = (if idx = length (sorted_keys r) then 0 else idx)
        in collect_nodes r idx count [0..<length (sorted_keys r)] [] {})"

text \<open>Membership changes as a sequence of calls on one ring, from the empty ring.\<close>

datatype ring_op = Add string | Remove string

fun apply_op :: "(string \<Rightarrow> nat) \<Rightarrow> hash_ring \<Rightarrow> ring_op \<Rightarrow> hash_ring" where
  "apply_op H r (Add node_id) = add_node H r node_id"
| "apply_op H r (Remove node_id) = remove_node r node_id"

definition run_ops :: "(string \<Rightarrow> nat) \<Rightarrow> ring_op list \<Rightarrow> hash_ring" where
  "run_ops H ops = foldl (apply_op H) empty_ring ops"

fun op_node :: "ring_op \<Rightarrow> string" where
  "op_node (Add node_id) = node_id"
| "op_node (Remove node_id) = node_id"

text \<open>
  A stand-in digest for worked examples: the bytes of the string read as one
  big-endian number, as \<open>int(hexdigest, 16)\<close> reads the digest's bytes.
\<close>

definition bytes_hash :: "string \<Rightarrow> nat" where
  "bytes_hash s = foldl (\<lambda>acc c. acc * 256 + of_char c) 0 s"

section \<open>Text of the wire protocol\<close>

text \<open>
  Strings are lists of characters with code points below 256. \<open>is_space\<close> is
  \<open>str.isspace\<close> on that range: TAB, LF, VT, FF, CR, FS, GS, RS, US, space, NEL
  and the no-break space.
\<close>

definition is_space :: "char \<Rightarrow> bool" where
  "is_space c = (of_char c \<in> {9, 10, 11, 12, 13, 28, 29, 30, 31, 32, 133, 160 :: nat})"

text \<open>
  \<open>s.split(maxsplit=n)\<close>: up to \<open>n\<close> words are cut off; what is left, without
  its leading whitespace, is the last element as it stands (inner and trailing
  whitespace kept).
\<close>

fun split_ws :: "nat \<Rightarrow> string \<Rightarrow> string list" where
  "split_ws 0 s = (let r = dropWhile is_space s in if r = [] then [] else [r])"
| "split_ws (Suc n) s =
     (let r = dropWhile is_space s
      in if r = [] then []
         else takeWhile (\<lambda>c. \<not> is_space c) r
                # split_ws n (dropWhile (\<lambda>c. \<not> is_space c) r))"

text \<open>\<open>s.split()\<close>: every whitespace-delimited word.\<close>

function split_all :: "string \<Rightarrow> string list" where
  "split_all s =
     (let r = dropWhile is_space s
      in if r = [] then []
         else takeWhile (\<lambda>c. \<not> is_space c) r
                # split_all (dropWhile (\<lambda>c. \<not> is_space c) r))"
  by pat_completeness auto
termination
proof (relation "measure length")
  fix s r :: string
  assume r: "r = dropWhile is_space s" and ne: "r \<noteq> []"
  from ne obtain c cs where rc: "r = c # cs" by (cases r) auto
  with r have "\<not> is_space c" by (metis hd_dropWhile list.sel(1) ne)
  with rc have "length (dropWhile (\<lambda>c. \<not> is_space c) r) \<le> length cs"
    by (simp add: length_dropWhile_le)
  moreover have "length r \<le> length s" using r by (simp add: length_dropWhile_le)
  ultimately show "(dropWhile (\<lambda>c. \<not> is_space c) r, s) \<in> measure length"
    using rc by simp
qed simp

declare split_all.simps [simp del]

text \<open>\<open>s.split(sep)\<close> for a one-character separator: empty pieces are kept.\<close>

fun split_on :: "char \<Rightarrow> string \<Rightarrow> string list" where
  "split_on sep [] = [[]]"
| "split_on sep (c # cs) =
     (if c = sep then [] # split_on sep cs
      else (case split_on sep cs of
              [] \<Rightarrow> [[c]]
            | w # ws \<Rightarrow> (c # w) # ws))"

text \<open>\<open>s.strip()\<close>.\<close>

definition strip :: "string \<Rightarrow> string" where
  "strip s = rev (dropWhile is_space (rev (dropWhile is_space s)))"

text \<open>
  \<open>int(s)\<close> in base 10: surrounding whitespace, an optional sign, then decimal
  digits in which single underscores may separate digits. Anything else raises
  \<open>ValueError\<close>, here \<open>None\<close>. The whitespace \<open>int\<close> skips is narrower than
  \<open>str.isspace\<close>: TAB, LF, VT, FF, CR and space, and of the characters from 127
  on those it first turns into a space, NEL and the no-break space; FS, GS, RS
  and US are not skipped.
\<close>

definition is_int_space :: "char \<Rightarrow> bool" where
  "is_int_space c = (of_char c \<in> {9, 10, 11, 12, 13, 32, 133, 160 :: nat})"

definition strip_int :: "string \<Rightarrow> string" where
  "strip_int s = rev (dropWhile is_int_space (rev (dropWhile is_int_space s)))"

definition is_digit :: "char \<Rightarrow> bool" where
  "is_digit c = (48 \<le> (of_char c :: nat) \<and> (of_char c :: nat) \<le> 57)"

fun digits_ok :: "string \<Rightarrow> bool" where
  "digits_ok [] = False"
| "digits_ok [c] = is_digit c"
| "digits_ok (c # d # cs) =
     (if is_digit c then digits_ok (d # cs)
      else c = CHR ''_'' \<and> is_digit d \<and> digits_ok (d # cs))"

definition digits_value :: "string \<Rightarrow> nat" where
  "digits_value ds = foldl (\<lambda>acc c. acc * 10 + (of_char c - 48)) 0 (filter is_digit ds)"

definition py_int :: "string \<Rightarrow> int option" where
  "py_int s =
     (let t = strip_int s;
          neg = (t \<noteq> [] \<and> hd t = CHR ''-'');
          ds = (if t \<noteq> [] \<and> (hd t = CHR ''-'' \<or> hd t = CHR ''+'') then tl t else t)
      in if ds \<noteq> [] \<and> is_digit (hd ds) \<and> digits_ok ds
         then Some (if neg then - int (digits_value ds) else int (digits_value ds))
         else None)"

section \<open>coordinator/coordinator.py: the registry\<close>

text \<open>
  \<open>self.nodes\<close> is a dict in insertion order, \<open>self.lock\<close> a
  \<open>threading.Lock\<close>: \<open>coord_lock\<close> is \<open>True\<close> while it is held. The lock is not
  re-entrant, so acquiring it while it is held never returns; that outcome is
  \<open>Hang\<close>. Timestamps (\<open>time.time()\<close>) are real numbers handed in by the caller.
  In the functions below \<open>h\<close>, \<open>p\<close> and \<open>nid\<close> are the source's \<open>host\<close>,
  \<open>port\<close> and \<open>node_id\<close>, which are field names here.
\<close>

record node_info =
  host :: string
  port :: int
  last_heartbeat :: real

record coordinator =
  coord_ring :: hash_ring
  coord_nodes :: "(string \<times> node_info) list"
  coord_lock :: bool

datatype 'a outcome = Return 'a | Raise error | Hang

definition init_coordinator :: coordinator where
  "init_coordinator = \<lparr>coord_ring = empty_ring, coord_nodes = [], coord_lock = False\<rparr>"

text \<open>
  \<open>with self.lock: body\<close>. Entering blocks for ever when the lock is held;
  leaving, by return or by exception, releases it.
\<close>

definition with_lock ::
  "coordinator \<Rightarrow> (coordinator \<Rightarrow> 'a outcome \<times> coordinator) \<Rightarrow> 'a outcome \<times> coordinator"
where
  "with_lock c body =
     (if coord_lock c then (Hang, c)
      else (case body (c\<lparr>coord_lock := True\<rparr>) of
              (Hang, c') \<Rightarrow> (Hang, c')
            | (out, c') \<Rightarrow> (out, c'\<lparr>coord_lock := False\<rparr>)))"

text \<open>
  \<open>repr(s)\<close> of a string, which the message of \<open>int\<close>'s \<open>ValueError\<close> quotes
  the literal with: double quotes when the string has a single quote and no
  double quote, single quotes otherwise; the quote and the backslash escaped;
  \<open>\t\<close>, \<open>\n\<close>, \<open>\r\<close>; every other unprintable character as \<open>\xhh\<close>.
\<close>

definition hex_digit :: "nat \<Rightarrow> char" where
  "hex_digit d = (if d < 10 then char_of (48 + d) else char_of (87 + d))"

definition is_printable :: "char \<Rightarrow> bool" where
  "is_printable c =
     (let n = (of_char c :: nat)
      in (32 \<le> n \<and> n < 127) \<or> (161 \<le> n \<and> n \<noteq> 173))"

definition repr_char :: "char \<Rightarrow> char \<Rightarrow> string" where
  "repr_char quote c =
     (if c = quote \<or> c = CHR 0x5C then [CHR 0x5C, c]
      else if c = CHR 0x09 then [CHR 0x5C, CHR ''t'']
      else if c = CHR 0x0A then [CHR 0x5C, CHR ''n'']
      else if c = CHR 0x0D then [CHR 0x5C, CHR ''r'']
      else if is_printable c then [c]
      else [CHR 0x5C, CHR ''x'', hex_digit (of_char c div 16), hex_digit (of_char c mod 16)])"

definition py_repr :: "string \<Rightarrow> string" where
  "py_repr s =
     (let quote = (if CHR 0x27 \<in> set s \<and> CHR 0x22 \<notin> set s then CHR 0x22 else CHR 0x27)
      in [quote] @ concat (map (repr_char quote) s) @ [quote])"

definition int_error :: "string \<Rightarrow> error" where
  "int_error s = ValueError (''invalid literal for int() with base 10: '' @ py_repr s)"

definition register_node ::
  "(string \<Rightarrow> nat) \<Rightarrow> coordinator \<Rightarrow> string \<Rightarrow> string \<Rightarrow> real \<Rightarrow> string outcome \<times> coordinator"
where
  "register_node H c h p now =
     (let nid = h @ '':'' @ p
      in with_lock c (\<lambda>c.
           if nid \<in> fst ` set (coord_nodes c)
           then (Return (''WARNING Node '' @ nid @ '' already registered''), c)
           else (case py_int p of
                   None \<Rightarrow> (Raise (int_error p), c)
                 | Some pn \<Rightarrow>
                     (Return (''OK Node '' @ nid @ '' registered''),
                      c\<lparr>coord_nodes :=
                           AList.update nid \<lparr>host = h, port = pn, last_heartbeat = now\<rparr>
                             (coord_nodes c),
                         coord_ring := add_node H (coord_ring c) nid\<rparr>))))"

definition unregister_node ::
  "coordinator \<Rightarrow> string \<Rightarrow> string \<Rightarrow> string outcome \<times> coordinator"
where
  "unregister_node c h p =
     (let nid = h @ '':'' @ p
      in with_lock c (\<lambda>c.
           if nid \<notin> fst ` set (coord_nodes c)
           then (Return (''ERROR Node '' @ nid @ '' not found''), c)
           else (Return (''OK Node '' @ nid @ '' unregistered''),
                 c\<lparr>coord_nodes := AList.delete nid (coord_nodes c),
                    coord_ring := remove_node (coord_ring c) nid\<rparr>)))"

text \<open>
  \<open>_get_nodes_for_key\<close>: the ring is read under the lock, inside
  \<open>try ... except Exception as e: return f"ERROR {str(e)}"\<close>.
\<close>

definition get_nodes_for_key ::
  "(string \<Rightarrow> nat) \<Rightarrow> coordinator \<Rightarrow> string \<Rightarrow> string outcome \<times> coordinator"
where
  "get_nodes_for_key H c key =
     (case with_lock c (\<lambda>c.
             case get_nodes H (coord_ring c) key 3 of
               Inl e \<Rightarrow> (Raise e, c)
             | Inr ns \<Rightarrow> (Return ns, c)) of
        (Hang, c') \<Rightarrow> (Hang, c')
      | (Raise e, c') \<Rightarrow> (Return (''ERROR '' @ str_error e), c')
      | (Return ns, c') \<Rightarrow>
          (if ns = [] then (Return ''ERROR No nodes available'', c')
           else (Return (''PRIMARY '' @ hd ns
                           @ concat (map (\<lambda>n. [CHR 0x0A] @ ''REPLICA '' @ n) (tl ns))), c')))"

definition list_nodes :: "coordinator \<Rightarrow> string outcome \<times> coordinator" where
  "list_nodes c =
     with_lock c (\<lambda>c.
       if coord_nodes c = [] then (Return ''OK No nodes registered'', c)
       else (Return (strip (''OK Nodes:'' @ [CHR 0x0A]
                      @ concat (map (\<lambda>n. ''  '' @ n @ [CHR 0x0A])
                                  (sort (map fst (coord_nodes c)))))), c))"

definition coord_process_command ::
  "(string \<Rightarrow> nat) \<Rightarrow> coordinator \<Rightarrow> string \<Rightarrow> real \<Rightarrow> string outcome \<times> coordinator"
where
  "coord_process_command H c command now =
     (let parts = split_all command
      in if parts = [] then (Return ''ERROR Invalid command'', c)
         else
           let cmd = hd parts
           in if cmd = ''REGISTER_NODE'' then
                (if length parts < 3 then (Return ''ERROR Invalid REGISTER_NODE format'', c)
                 else register_node H c (parts ! 1) (parts ! 2) now)
              else if cmd = ''UNREGISTER_NODE'' then
                (if length parts < 3 then (Return ''ERROR Invalid UNREGISTER_NODE format'', c)
                 else unregister_node c (parts ! 1) (parts ! 2))
              else if cmd = ''GET_NODES_FOR_KEY'' then
                (if length parts < 2 then (Return ''ERROR Invalid GET_NODES_FOR_KEY format'', c)
                 else get_nodes_for_key H c (parts ! 1))
              else if cmd = ''LIST_NODES'' then list_nodes c
              else (Return ''ERROR Unknown command'', c))"

text \<open>
  One pass of \<open>_heartbeat_loop\<close> after its \<open>time.sleep(5)\<close>. The clock is read
  once per entry: \<open>clock i\<close> is what \<open>time.time()\<close> returns when the \<open>i\<close>-th
  entry of the table is examined. Timestamps are floats, here the real numbers
  they denote; \<open>fsub\<close> is the subtraction of two floats, which rounds and
  belongs to the Python runtime, so the sweep takes it as an argument. The
  comparison with 10 is exact.
\<close>

definition dead_nodes ::
  "(real \<Rightarrow> real \<Rightarrow> real) \<Rightarrow> (nat \<Rightarrow> real) \<Rightarrow> (string \<times> node_info) list \<Rightarrow> string list"
where
  "dead_nodes fsub clock entries =
     map (\<lambda>(i, nid, info). nid)
       (filter (\<lambda>(i, nid, info). fsub (clock i) (last_heartbeat info) > 10)
          (enumerate 0 entries))"

definition unpack_error :: "nat \<Rightarrow> error" where
  "unpack_error got =
     (if got < 2
      then ValueError (''not enough values to unpack (expected 2, got '' @ str_nat got @ '')'')
      else ValueError ''too many values to unpack (expected 2)'')"

text \<open>
  The second loop of the sweep, \<open>for node_id in dead_nodes\<close>, which runs with the
  lock still held: \<open>host, port = node_id.split(':')\<close>, then
  \<open>self._unregister_node(host, port)\<close>.
\<close>

fun unregister_dead :: "coordinator \<Rightarrow> string list \<Rightarrow> unit outcome \<times> coordinator" where
  "unregister_dead c [] = (Return (), c)"
| "unregister_dead c (nid # rest) =
     (case split_on CHR '':'' nid of
        [h, p] \<Rightarrow>
          (case unregister_node c h p of
             (Return resp, c') \<Rightarrow> unregister_dead c' rest
           | (Raise e, c') \<Rightarrow> (Raise e, c')
           | (Hang, c') \<Rightarrow> (Hang, c'))
      | parts \<Rightarrow> (Raise (unpack_error (length parts)), c))"

definition heartbeat_sweep ::
  "(real \<Rightarrow> real \<Rightarrow> real) \<Rightarrow> (nat \<Rightarrow> real) \<Rightarrow> coordinator \<Rightarrow> unit outcome \<times> coordinator"
where
  "heartbeat_sweep fsub clock c =
     with_lock c (\<lambda>c. unregister_dead c (dead_nodes fsub clock (coord_nodes c)))"

text \<open>
  The registry's history: commands with the time they are served at, and
  sweeps with the float subtraction and the clock readings they run with.
\<close>

datatype event = Command string real | Sweep "real \<Rightarrow> real \<Rightarrow> real" "nat \<Rightarrow> real"

fun coord_step :: "(string \<Rightarrow> nat) \<Rightarrow> coordinator \<Rightarrow> event \<Rightarrow> coordinator" where
  "coord_step H c (Command command now) = snd (coord_process_command H c command now)"
| "coord_step H c (Sweep fsub clock) = snd (heartbeat_sweep fsub clock c)"

definition coord_run :: "(string \<Rightarrow> nat) \<Rightarrow> event list \<Rightarrow> coordinator" where
  "coord_run H evs = foldl (coord_step H) init_coordinator evs"

section \<open>node/node.py: the storage node\<close>

text \<open>
  \<open>data\<close> is the in-memory dict. \<open>outbox\<close> records, in order, every replication
  push the node starts: the peer's host and port and the command it is sent.
  The node's own lock is taken and released inside \<open>_put\<close>, \<open>_get\<close> and
  \<open>_delete\<close> and never nested. \<open>val\<close> is the source's \<open>value\<close>.
\<close>

record storage_node =
  node_id :: string
  data :: "(string \<times> string) list"
  outbox :: "(string \<times> int \<times> string) list"

definition node_put :: "storage_node \<Rightarrow> string \<Rightarrow> string \<Rightarrow> storage_node" where
  "node_put n key val = n\<lparr>data := AList.update key val (data n)\<rparr>"

definition node_get :: "storage_node \<Rightarrow> string \<Rightarrow> string option" where
  "node_get n key = map_of (data n) key"

definition node_delete :: "storage_node \<Rightarrow> string \<Rightarrow> storage_node" where
  "node_delete n key =
     (if key \<in> fst ` set (data n) then n\<lparr>data := AList.delete key (data n)\<rparr> else n)"

text \<open>
  \<open>_replicate_to_nodes\<close>: each replica id is handled inside its own
  \<open>try ... except Exception\<close>, so an id that does not unpack into host and port,
  or whose port is not an integer, is skipped.
\<close>

fun replicate_to_nodes ::
  "storage_node \<Rightarrow> string \<Rightarrow> string \<Rightarrow> string list \<Rightarrow> storage_node"
where
  "replicate_to_nodes n key val [] = n"
| "replicate_to_nodes n key val (replica_id # rest) =
     replicate_to_nodes
       (case split_on CHR '':'' replica_id of
          [h, p] \<Rightarrow>
            (case py_int p of
               None \<Rightarrow> n
             | Some pn \<Rightarrow>
                 n\<lparr>outbox := outbox n @ [(h, pn, ''REPLICATE '' @ key @ '' '' @ val)]\<rparr>)
        | parts \<Rightarrow> n)
       key val rest"

definition node_process_command :: "storage_node \<Rightarrow> string \<Rightarrow> string \<times> storage_node" where
  "node_process_command n command =
     (let parts = split_ws 2 command
      in if parts = [] then (''ERROR Invalid command'', n)
         else
           let cmd = hd parts
           in if cmd = ''PUT'' then
                (if length parts < 3 then (''ERROR Invalid PUT format'', n)
                 else
                   let key = parts ! 1; val = parts ! 2;
                       n1 = node_put n key val;
                       n2 = (if length parts > 3
                             then replicate_to_nodes n1 key val (split_on CHR '','' (parts ! 3))
                             else n1)
                   in (''OK'', n2))
              else if cmd = ''GET'' then
                (if length parts < 2 then (''ERROR Invalid GET format'', n)
                 else (case node_get n (parts ! 1) of
                         Some v \<Rightarrow> (''VALUE '' @ v, n)
                       | None \<Rightarrow> (''NOT_FOUND'', n)))
              else if cmd = ''DELETE'' then
                (if length parts < 2 then (''ERROR Invalid DELETE format'', n)
                 else (''OK'', node_delete n (parts ! 1)))
              else if cmd = ''REPLICATE'' then
                (if length parts < 3 then (''ERROR Invalid REPLICATE format'', n)
                 else (''OK'', node_put n (parts ! 1) (parts ! 2)))
              else if cmd = ''INFO'' then
                (''OK Node '' @ node_id n @ '' keys='' @ str_nat (length (data n)), n)
              else (''ERROR Unknown command'', n))"

section \<open>Notions the statements and proofs are phrased in\<close>

subsection \<open>Hash ring\<close>

text \<open>
  What every reachable ring satisfies, whatever the digest does: the slot keys
  are distinct, \<open>sorted_keys\<close> is their sorted list, and every slot's owner is a
  member.
\<close>

definition ring_inv :: "hash_ring \<Rightarrow> bool" where
  "ring_inv r \<longleftrightarrow>
     distinct (map fst (ring r)) \<and> sorted_keys r = sort (map fst (ring r)) \<and>
     snd ` set (ring r) \<subseteq> nodes r \<and> finite (nodes r)"

text \<open>
  The position a lookup of \<open>h\<close> resolves to among the positions \<open>K\<close>: the least
  one strictly above \<open>h\<close>, or the least one of all when none is above.
\<close>

definition succ_pos :: "nat set \<Rightarrow> nat \<Rightarrow> nat" where
  "succ_pos K h = (if \<exists>p\<in>K. h < p then Min {p \<in> K. h < p} else Min K)"

text \<open>
  The strings a node's virtual positions are hashed from, and the assumption
  that the digest sends the virtual keys of the listed node ids to pairwise
  different positions (no two of them collide).
\<close>

definition virtual_keys :: "string \<Rightarrow> string list" where
  "virtual_keys x = map (virtual_key x) [0..<VIRTUAL_NODES]"

definition collision_free :: "(string \<Rightarrow> nat) \<Rightarrow> string list \<Rightarrow> bool" where
  "collision_free H ids = distinct (map H (concat (map virtual_keys (remdups ids))))"

text \<open>
  Without collisions the slots are exactly the \<open>VIRTUAL_NODES\<close> positions of
  each member; \<open>U\<close> bounds the node ids that occur.
\<close>

definition slot_of :: "(string \<Rightarrow> nat) \<Rightarrow> string \<times> nat \<Rightarrow> nat \<times> string" where
  "slot_of H ni = (H (virtual_key (fst ni) (snd ni)), fst ni)"

definition slots_exact :: "(string \<Rightarrow> nat) \<Rightarrow> string set \<Rightarrow> hash_ring \<Rightarrow> bool" where
  "slots_exact H U r \<longleftrightarrow>
     ring_inv r \<and> nodes r \<subseteq> U \<and>
     set (ring r) = slot_of H ` (nodes r \<times> {..<VIRTUAL_NODES})"

text \<open>
  Ring-successor order, in the specification's words: walk forward from the
  first position strictly greater than the key's hash, wrapping round past the
  last position, and collect the distinct physical node ids in the order met.
\<close>

definition ring_order :: "hash_ring \<Rightarrow> nat \<Rightarrow> nat list" where
  "ring_order r h =
     filter (\<lambda>p. h < p) (sorted_keys r) @ filter (\<lambda>p. \<not> h < p) (sorted_keys r)"

fun keep_first :: "'a list \<Rightarrow> 'a list" where
  "keep_first [] = []"
| "keep_first (x # xs) = x # keep_first (filter (\<lambda>y. y \<noteq> x) xs)"

definition successor_walk :: "(string \<Rightarrow> nat) \<Rightarrow> hash_ring \<Rightarrow> string \<Rightarrow> string list" where
  "successor_walk H r key =
     keep_first (List.map_filter (map_of (ring r)) (ring_order r (H key)))"

subsection \<open>Wire protocol\<close>

text \<open>
  A word is a non-empty string without whitespace: what a key, a host or a port
  must be to travel as one field. A value only has to be non-empty and not to
  start with whitespace; it may contain spaces.
\<close>

definition is_word :: "string \<Rightarrow> bool" where
  "is_word w = (w \<noteq> [] \<and> list_all (\<lambda>c. \<not> is_space c) w)"

definition is_value :: "string \<Rightarrow> bool" where
  "is_value v = (v \<noteq> [] \<and> \<not> is_space (hd v))"

subsection \<open>Registry\<close>

text \<open>The ring and the liveness table of a registry name the same nodes.\<close>

definition coord_inv :: "coordinator \<Rightarrow> bool" where
  "coord_inv c \<longleftrightarrow>
     ring_inv (coord_ring c) \<and> nodes (coord_ring c) = fst ` set (coord_nodes c)"

text \<open>A clock that shows the same time at every reading of one sweep.\<close>

definition steady_clock :: "real \<Rightarrow> nat \<Rightarrow> real" where
  "steady_clock t i = t"

text \<open>
  A stand-in for float subtraction in worked examples: the exact difference,
  which is what float subtraction gives on the small whole-number timestamps
  used there.
\<close>

definition exact_sub :: "real \<Rightarrow> real \<Rightarrow> real" where
  "exact_sub a b = a - b"

section \<open>The hash ring: invariants and lookup\<close>

lemma foldl_delete:
  "foldl (\<lambda>m h. AList.delete h m) al hs = filter (\<lambda>p. fst p \<notin> set hs) al"
proof (induction hs arbitrary: al)
  case Nil
  then show ?case by simp
next
  case (Cons h hs)
  have "filter (\<lambda>p. fst p \<notin> set hs) (AList.delete h al) = filter (\<lambda>p. fst p \<notin> set (h # hs)) al"
    by (induction al) (auto simp: AList.delete_eq)
  with Cons show ?case by simp
qed

lemma ring_remove_node:
  assumes "distinct (map fst (ring r))" and "x \<in> nodes r"
  shows "ring (remove_node r x) = filter (\<lambda>p. snd p \<noteq> x) (ring r)"
proof -
  have "filter (\<lambda>p. fst p \<notin> set (filter (\<lambda>h. map_of (ring r) h = Some x) (map fst (ring r)))) (ring r)
        = filter (\<lambda>p. snd p \<noteq> x) (ring r)"
  proof (rule filter_cong[OF refl])
    fix p assume p: "p \<in> set (ring r)"
    obtain k v where kv: "p = (k, v)" by (cases p)
    from p kv assms(1) have "map_of (ring r) k = Some v" by simp
    moreover from p kv have "k \<in> fst ` set (ring r)" by force
    ultimately show "(fst p \<notin> set (filter (\<lambda>h. map_of (ring r) h = Some x) (map fst (ring r)))) = (snd p \<noteq> x)"
      using kv by auto
  qed
  with assms(2) show ?thesis
    by (simp add: remove_node_def Let_def foldl_delete)
qed

lemma set_update:
  "distinct (map fst al) \<Longrightarrow>
   set (AList.update k v al) = insert (k, v) {p \<in> set al. fst p \<noteq> k}"
  by (induction al) (auto simp: rev_image_eqI)

lemma ring_add_node:
  "x \<notin> nodes r \<Longrightarrow>
   ring (add_node H r x) =
     AList.update (H (virtual_key x 2)) x
       (AList.update (H (virtual_key x 1)) x
          (AList.update (H (virtual_key x 0)) x (ring r)))"
  by (simp add: add_node_def Let_def VIRTUAL_NODES_def upt_rec numeral_3_eq_3 numeral_2_eq_2)

lemma ring_inv_empty: "ring_inv empty_ring"
  by (simp add: ring_inv_def empty_ring_def)

lemma ring_inv_add: "ring_inv r \<Longrightarrow> ring_inv (add_node H r x)"
proof (cases "x \<in> nodes r")
  case True
  assume "ring_inv r" with True show ?thesis by (simp add: add_node_def)
next
  case False
  assume inv: "ring_inv r"
  have d: "distinct (map fst (ring (add_node H r x)))"
    using inv False by (simp add: ring_add_node ring_inv_def distinct_update)
  have s: "sorted_keys (add_node H r x) = sort (map fst (ring (add_node H r x)))"
    using False by (simp add: add_node_def Let_def)
  have n: "nodes (add_node H r x) = insert x (nodes r)"
    using False by (simp add: add_node_def Let_def)
  have "snd ` set (ring (add_node H r x)) \<subseteq> insert x (nodes r)"
    using inv False
    by (auto simp: ring_add_node ring_inv_def set_update distinct_update)
  with d s n inv show ?thesis by (simp add: ring_inv_def)
qed

lemma ring_inv_remove: "ring_inv r \<Longrightarrow> ring_inv (remove_node r x)"
proof (cases "x \<in> nodes r")
  case False
  assume "ring_inv r" with False show ?thesis by (simp add: remove_node_def)
next
  case True
  assume inv: "ring_inv r"
  then have dist: "distinct (map fst (ring r))" by (simp add: ring_inv_def)
  have r: "ring (remove_node r x) = filter (\<lambda>p. snd p \<noteq> x) (ring r)"
    by (rule ring_remove_node[OF dist True])
  have s: "sorted_keys (remove_node r x) = sort (map fst (ring (remove_node r x)))"
    using True by (simp add: remove_node_def Let_def)
  have n: "nodes (remove_node r x) = nodes r - {x}"
    using True by (simp add: remove_node_def Let_def)
  have d: "distinct (map fst (filter (\<lambda>p. snd p \<noteq> x) (ring r)))"
    using dist by (simp add: distinct_map_filter)
  have "snd ` set (filter (\<lambda>p. snd p \<noteq> x) (ring r)) \<subseteq> nodes r - {x}"
    using inv by (auto simp: ring_inv_def)
  with d s n r inv show ?thesis by (simp add: ring_inv_def)
qed

lemma ring_inv_foldl: "ring_inv r \<Longrightarrow> ring_inv (foldl (apply_op H) r ops)"
proof (induction ops arbitrary: r)
  case Nil
  then show ?case by simp
next
  case (Cons a ops)
  then show ?case by (cases a) (simp_all add: ring_inv_add ring_inv_remove)
qed

lemma ring_inv_run: "ring_inv (run_ops H ops)"
  by (simp add: run_ops_def ring_inv_foldl ring_inv_empty)

lemma bisect_loop_spec:
  assumes "sorted a" "lo \<le> hi" "hi \<le> length a"
    and "\<forall>j<lo. a ! j \<le> x" and "\<forall>j. hi \<le> j \<and> j < length a \<longrightarrow> x < a ! j"
  shows "bisect_loop a x lo hi \<le> length a \<and>
         (\<forall>j < bisect_loop a x lo hi. a ! j \<le> x) \<and>
         (\<forall>j. bisect_loop a x lo hi \<le> j \<and> j < length a \<longrightarrow> x < a ! j)"
  using assms
proof (induction a x lo hi rule: bisect_loop.induct)
  case (1 a x lo hi)
  show ?case
  proof (cases "lo < hi")
    case False
    with "1.prems" have "lo = hi" by simp
    with "1.prems" show ?thesis by (simp add: bisect_loop.simps[of a x hi hi])
  next
    case True
    define mid where "mid = (lo + hi) div 2"
    have mid: "lo \<le> mid" "mid < hi" using True by (auto simp: mid_def)
    show ?thesis
    proof (cases "x < a ! mid")
      case lt: True
      have up: "\<forall>j. mid \<le> j \<and> j < length a \<longrightarrow> x < a ! j"
      proof (intro allI impI)
        fix j assume "mid \<le> j \<and> j < length a"
        then have "a ! mid \<le> a ! j" using \<open>sorted a\<close> by (simp add: sorted_nth_mono)
        with lt show "x < a ! j" by simp
      qed
      have eq: "bisect_loop a x lo hi = bisect_loop a x lo mid"
        using True lt by (simp add: bisect_loop.simps[of a x lo hi] mid_def Let_def)
      have "bisect_loop a x lo mid \<le> length a \<and>
         (\<forall>j < bisect_loop a x lo mid. a ! j \<le> x) \<and>
         (\<forall>j. bisect_loop a x lo mid \<le> j \<and> j < length a \<longrightarrow> x < a ! j)"
        using "1.IH"(1)[OF True mid_def lt] "1.prems" mid up by simp
      with eq show ?thesis by simp
    next
      case ge: False
      have low: "\<forall>j<mid + 1. a ! j \<le> x"
      proof (intro allI impI)
        fix j assume "j < mid + 1"
        then have "a ! j \<le> a ! mid" using \<open>sorted a\<close> mid "1.prems"(3)
          by (simp add: sorted_nth_mono)
        with ge show "a ! j \<le> x" by simp
      qed
      have eq: "bisect_loop a x lo hi = bisect_loop a x (mid + 1) hi"
        using True ge by (simp add: bisect_loop.simps[of a x lo hi] mid_def Let_def)
      have "bisect_loop a x (mid + 1) hi \<le> length a \<and>
         (\<forall>j < bisect_loop a x (mid + 1) hi. a ! j \<le> x) \<and>
         (\<forall>j. bisect_loop a x (mid + 1) hi \<le> j \<and> j < length a \<longrightarrow> x < a ! j)"
        using "1.IH"(2)[OF True mid_def ge] "1.prems" mid low by simp
      with eq show ?thesis by simp
    qed
  qed
qed

lemma bisect_right_spec:
  assumes "sorted a"
  shows "bisect_right a x \<le> length a"
    and "\<And>j. j < bisect_right a x \<Longrightarrow> a ! j \<le> x"
    and "\<And>j. bisect_right a x \<le> j \<Longrightarrow> j < length a \<Longrightarrow> x < a ! j"
  using bisect_loop_spec[OF assms, of 0 "length a" x]
  by (simp_all add: bisect_right_def)

lemma nth_successor:
  assumes "sorted sk" and "sk \<noteq> []"
  shows "sk ! (if bisect_right sk h = length sk then 0 else bisect_right sk h)
         = succ_pos (set sk) h"
proof (cases "bisect_right sk h = length sk")
  case True
  have all: "\<forall>p\<in>set sk. p \<le> h"
    using bisect_right_spec(2)[OF assms(1), of _ h] True by (auto simp: in_set_conv_nth)
  then have "\<not> (\<exists>p\<in>set sk. h < p)" by auto
  moreover have "Min (set sk) = sk ! 0"
  proof (rule Min_eqI)
    show "finite (set sk)" by simp
    show "sk ! 0 \<in> set sk" using assms(2) by simp
    fix y assume "y \<in> set sk"
    then obtain j where "j < length sk" "y = sk ! j" by (auto simp: in_set_conv_nth)
    then show "sk ! 0 \<le> y" using assms(1) by (simp add: sorted_nth_mono)
  qed
  ultimately show ?thesis using True by (simp add: succ_pos_def)
next
  case False
  define i where "i = bisect_right sk h"
  have i: "i < length sk" using False bisect_right_spec(1)[OF assms(1), of h] by (simp add: i_def)
  have gt: "h < sk ! i" using bisect_right_spec(3)[OF assms(1), of h i] i by (simp add: i_def)
  have ex: "\<exists>p\<in>set sk. h < p" using i gt by (metis nth_mem)
  have "Min {p \<in> set sk. h < p} = sk ! i"
  proof (rule Min_eqI)
    show "finite {p \<in> set sk. h < p}" by simp
    show "sk ! i \<in> {p \<in> set sk. h < p}" using i gt by simp
    fix y assume "y \<in> {p \<in> set sk. h < p}"
    then obtain j where j: "j < length sk" "y = sk ! j" "h < sk ! j"
      by (auto simp: in_set_conv_nth)
    have "i \<le> j"
    proof (rule ccontr)
      assume "\<not> i \<le> j"
      then have "sk ! j \<le> h" using bisect_right_spec(2)[OF assms(1), of j h] by (simp add: i_def)
      with j show False by simp
    qed
    then show "sk ! i \<le> y" using assms(1) j by (simp add: sorted_nth_mono)
  qed
  with ex False show ?thesis by (simp add: succ_pos_def i_def)
qed

lemma succ_pos_in: "finite K \<Longrightarrow> K \<noteq> {} \<Longrightarrow> succ_pos K h \<in> K"
proof -
  assume fin: "finite K" and ne: "K \<noteq> {}"
  show ?thesis
  proof (cases "\<exists>p\<in>K. h < p")
    case True
    then have "{p \<in> K. h < p} \<noteq> {}" by auto
    then have "Min {p \<in> K. h < p} \<in> {p \<in> K. h < p}" using fin by (intro Min_in) auto
    with True show ?thesis by (simp add: succ_pos_def)
  next
    case False
    with fin ne show ?thesis by (simp add: succ_pos_def)
  qed
qed

lemma succ_pos_subset:
  assumes "finite K" and "K' \<subseteq> K" and "succ_pos K h \<in> K'"
  shows "succ_pos K' h = succ_pos K h"
proof (cases "\<exists>p\<in>K. h < p")
  case True
  have fin: "finite {p \<in> K. h < p}" using assms(1) by simp
  from True have ne: "{p \<in> K. h < p} \<noteq> {}" by auto
  have s: "succ_pos K h = Min {p \<in> K. h < p}" using True by (simp add: succ_pos_def)
  have mem: "succ_pos K h \<in> {p \<in> K. h < p}" unfolding s using fin ne by (rule Min_in)
  then have ex': "\<exists>p\<in>K'. h < p" using assms(3) by auto
  have "Min {p \<in> K'. h < p} = succ_pos K h"
  proof (rule Min_eqI)
    show "finite {p \<in> K'. h < p}" using assms(1,2) by (auto intro: finite_subset)
    show "succ_pos K h \<in> {p \<in> K'. h < p}" using mem assms(3) by simp
    fix y assume "y \<in> {p \<in> K'. h < p}"
    then have "y \<in> {p \<in> K. h < p}" using assms(2) by auto
    then show "succ_pos K h \<le> y" unfolding s using fin by (simp add: Min_le)
  qed
  with ex' show ?thesis by (simp add: succ_pos_def)
next
  case False
  then have no': "\<not> (\<exists>p\<in>K'. h < p)" using assms(2) by auto
  have s: "succ_pos K h = Min K" using False by (simp add: succ_pos_def)
  have "Min K' = Min K"
  proof (rule Min_eqI)
    show "finite K'" using assms(1,2) by (rule rev_finite_subset)
    show "Min K \<in> K'" using assms(3) s by simp
    fix y assume "y \<in> K'"
    then show "Min K \<le> y" using assms(1,2) by (auto intro: Min_le)
  qed
  with no' s show ?thesis by (simp add: succ_pos_def)
qed

lemma get_node_eq:
  assumes "ring_inv r" and "ring r \<noteq> []"
  shows "get_node H r key =
         Inr (the (map_of (ring r) (succ_pos (fst ` set (ring r)) (H key))))"
    and "succ_pos (fst ` set (ring r)) (H key) \<in> fst ` set (ring r)"
proof -
  let ?sk = "sorted_keys r"
  have sk: "?sk = sort (map fst (ring r))" using assms(1) by (simp add: ring_inv_def)
  have srt: "sorted ?sk" using sk by simp
  have st: "set ?sk = fst ` set (ring r)" using sk by simp
  have ne: "?sk \<noteq> []" using st assms(2) by auto
  define idx where "idx = (if bisect_right ?sk (H key) = length ?sk then 0 else bisect_right ?sk (H key))"
  have p: "?sk ! idx = succ_pos (fst ` set (ring r)) (H key)"
    unfolding idx_def using nth_successor[OF srt ne, of "H key"] st by simp
  have lt: "idx < length ?sk"
    using bisect_right_spec(1)[OF srt, of "H key"] ne by (auto simp: idx_def)
  show mem: "succ_pos (fst ` set (ring r)) (H key) \<in> fst ` set (ring r)"
    using p lt st by (metis nth_mem)
  then obtain y where "map_of (ring r) (succ_pos (fst ` set (ring r)) (H key)) = Some y"
    by (metis domD dom_map_of_conv_image_fst)
  then show "get_node H r key =
         Inr (the (map_of (ring r) (succ_pos (fst ` set (ring r)) (H key))))"
    using assms(2) lt p
    by (simp add: get_node_def Let_def idx_def[symmetric] ring_lookup_def)
qed

lemma remove_node_disruption:
  assumes inv: "ring_inv r"
  shows "get_node H (remove_node r x) key = get_node H r key \<or> get_node H r key = Inr x"
proof (cases "x \<in> nodes r")
  case False
  then show ?thesis by (simp add: remove_node_def)
next
  case True
  have dist: "distinct (map fst (ring r))" using inv by (simp add: ring_inv_def)
  have r': "ring (remove_node r x) = filter (\<lambda>p. snd p \<noteq> x) (ring r)"
    by (rule ring_remove_node[OF dist True])
  have inv': "ring_inv (remove_node r x)" by (rule ring_inv_remove[OF inv])
  show ?thesis
  proof (cases "ring r = []")
    case True
    with r' show ?thesis by (simp add: get_node_def)
  next
    case False
    let ?K = "fst ` set (ring r)"
    let ?K' = "fst ` set (ring (remove_node r x))"
    let ?p = "succ_pos ?K (H key)"
    have g: "get_node H r key = Inr (the (map_of (ring r) ?p))" and pin: "?p \<in> ?K"
      using get_node_eq[OF inv False, of H key] by simp_all
    from pin obtain y where y: "(?p, y) \<in> set (ring r)" by auto
    with dist have my: "map_of (ring r) ?p = Some y" by simp
    show ?thesis
    proof (cases "y = x")
      case True
      with g my show ?thesis by simp
    next
      case False
      with y r' have y': "(?p, y) \<in> set (ring (remove_node r x))" by simp
      then have ne': "ring (remove_node r x) \<noteq> []" by auto
      from y' have pin': "?p \<in> ?K'" by force
      have sub: "?K' \<subseteq> ?K" using r' by auto
      have sp: "succ_pos ?K' (H key) = ?p"
        by (rule succ_pos_subset[OF _ sub pin']) simp
      have dist': "distinct (map fst (ring (remove_node r x)))"
        using inv' by (simp add: ring_inv_def)
      with y' have "map_of (ring (remove_node r x)) ?p = Some y" by simp
      with get_node_eq(1)[OF inv' ne', of H key] sp g my show ?thesis by simp
    qed
  qed
qed

lemma add_node_disruption:
  assumes inv: "ring_inv r"
  shows "get_node H (add_node H r x) key = get_node H r key \<or>
         get_node H (add_node H r x) key = Inr x"
proof (cases "x \<in> nodes r")
  case True
  then show ?thesis by (simp add: add_node_def)
next
  case False
  let ?r' = "add_node H r x"
  have dist: "distinct (map fst (ring r))" using inv by (simp add: ring_inv_def)
  have inv': "ring_inv ?r'" by (rule ring_inv_add[OF inv])
  have dist': "distinct (map fst (ring ?r'))" using inv' by (simp add: ring_inv_def)
  have ne': "ring ?r' \<noteq> []" using False by (simp add: ring_add_node)
  have m': "map_of (ring ?r') =
            (map_of (ring r))(H (virtual_key x 0) \<mapsto> x, H (virtual_key x 1) \<mapsto> x,
                              H (virtual_key x 2) \<mapsto> x)"
    using False by (simp add: ring_add_node update_conv')
  let ?K = "fst ` set (ring r)"
  let ?K' = "fst ` set (ring ?r')"
  let ?p = "succ_pos ?K' (H key)"
  have g': "get_node H ?r' key = Inr (the (map_of (ring ?r') ?p))" and pin': "?p \<in> ?K'"
    using get_node_eq[OF inv' ne', of H key] by simp_all
  from pin' obtain y where y: "(?p, y) \<in> set (ring ?r')" by auto
  with dist' have my': "map_of (ring ?r') ?p = Some y" by simp
  show ?thesis
  proof (cases "y = x")
    case True
    with g' my' show ?thesis by simp
  next
    case ne: False
    from my' ne have my: "map_of (ring r) ?p = Some y"
      unfolding m' by (auto split: if_splits)
    then have yr: "(?p, y) \<in> set (ring r)" by (rule map_of_SomeD)
    then have pin: "?p \<in> ?K" by force
    from yr have ner: "ring r \<noteq> []" by auto
    have "dom (map_of (ring r)) \<subseteq> dom (map_of (ring ?r'))" unfolding m' by auto
    then have sub: "?K \<subseteq> ?K'" by (simp add: dom_map_of_conv_image_fst)
    have sp: "succ_pos ?K (H key) = ?p"
      by (rule succ_pos_subset[OF _ sub pin]) simp
    with get_node_eq(1)[OF inv ner, of H key] g' my my' show ?thesis by simp
  qed
qed

text \<open>
  C2. Minimal disruption. On every ring reached from the empty ring by
  \<open>add_node\<close> and \<open>remove_node\<close> calls, removing node \<open>x\<close> leaves
  \<open>get_node key\<close> as it was unless the lookup resolved to \<open>x\<close> before, and
  adding node \<open>x\<close> leaves it as it was unless the lookup resolves to \<open>x\<close>
  afterwards.
\<close>

theorem minimal_disruption:
  "(get_node H (remove_node (run_ops H ops) x) key = get_node H (run_ops H ops) key \<or>
    get_node H (run_ops H ops) key = Inr x) \<and>
   (get_node H (add_node H (run_ops H ops) x) key = get_node H (run_ops H ops) key \<or>
    get_node H (add_node H (run_ops H ops) x) key = Inr x)"
  using remove_node_disruption[OF ring_inv_run] add_node_disruption[OF ring_inv_run]
  by blast

lemma str_nat_digit: "i < 10 \<Longrightarrow> str_nat i = [char_of (48 + i)]"
  by (simp add: str_nat.simps)

lemma virtual_key_inj:
  assumes "virtual_key x i = virtual_key y j" and "i < VIRTUAL_NODES" and "j < VIRTUAL_NODES"
  shows "x = y \<and> i = j"
proof -
  from assms(2,3) have i: "i < 10" and j: "j < 10" by (simp_all add: VIRTUAL_NODES_def)
  from assms(1) have e: "x @ '':virtual:'' @ [char_of (48 + i)] = y @ '':virtual:'' @ [char_of (48 + j)]"
    by (simp add: virtual_key_def str_nat_digit[OF i] str_nat_digit[OF j])
  then have "x = y \<and> (char_of (48 + i) :: char) = char_of (48 + j)"
    by (simp add: append_eq_append_conv)
  moreover have "48 + i \<in> {0..<256}" "48 + j \<in> {0..<256}" using i j by simp_all
  ultimately show ?thesis
    using inj_on_char_of_nat by (auto dest: inj_onD)
qed

lemma virtual_key_listed:
  assumes "x \<in> set ids" and "i < VIRTUAL_NODES"
  shows "virtual_key x i \<in> set (concat (map virtual_keys (remdups ids)))"
proof -
  have "virtual_key x i \<in> set (virtual_keys x)"
    using assms(2) by (simp add: virtual_keys_def)
  with assms(1) show ?thesis by auto
qed

lemma collision_free_inj:
  assumes "collision_free H ids"
  shows "inj_on (\<lambda>ni. H (virtual_key (fst ni) (snd ni))) (set ids \<times> {..<VIRTUAL_NODES})"
proof (rule inj_onI)
  fix a b assume a: "a \<in> set ids \<times> {..<VIRTUAL_NODES}" and b: "b \<in> set ids \<times> {..<VIRTUAL_NODES}"
    and e: "H (virtual_key (fst a) (snd a)) = H (virtual_key (fst b) (snd b))"
  let ?L = "concat (map virtual_keys (remdups ids))"
  from assms have "inj_on H (set ?L)" by (simp add: collision_free_def distinct_map)
  moreover have "virtual_key (fst a) (snd a) \<in> set ?L"
    using a by (intro virtual_key_listed) auto
  moreover have "virtual_key (fst b) (snd b) \<in> set ?L"
    using b by (intro virtual_key_listed) auto
  ultimately have "virtual_key (fst a) (snd a) = virtual_key (fst b) (snd b)"
    using e by (auto dest: inj_onD)
  with virtual_key_inj[of "fst a" "snd a" "fst b" "snd b"] a b show "a = b"
    by (auto simp: prod_eq_iff)
qed

lemma slots_exact_empty: "slots_exact H U empty_ring"
  by (simp add: slots_exact_def ring_inv_empty) (simp add: empty_ring_def)

lemma slots_exact_remove:
  assumes "slots_exact H U r"
  shows "slots_exact H U (remove_node r x)"
proof (cases "x \<in> nodes r")
  case False
  with assms show ?thesis by (simp add: remove_node_def)
next
  case True
  from assms have inv: "ring_inv r" and sub: "nodes r \<subseteq> U"
    and ex: "set (ring r) = slot_of H ` (nodes r \<times> {..<VIRTUAL_NODES})"
    by (simp_all add: slots_exact_def)
  have dist: "distinct (map fst (ring r))" using inv by (simp add: ring_inv_def)
  have r': "ring (remove_node r x) = filter (\<lambda>p. snd p \<noteq> x) (ring r)"
    by (rule ring_remove_node[OF dist True])
  have n: "nodes (remove_node r x) = nodes r - {x}"
    using True by (simp add: remove_node_def Let_def)
  have "set (ring (remove_node r x)) = slot_of H ` ((nodes r - {x}) \<times> {..<VIRTUAL_NODES})"
    unfolding r' using ex by (auto simp: slot_of_def image_iff)
  with ring_inv_remove[OF inv] sub n show ?thesis by (auto simp: slots_exact_def)
qed

lemma slots_exact_add:
  assumes ex: "slots_exact H U r" and xU: "x \<in> U"
    and inj: "inj_on (\<lambda>ni. H (virtual_key (fst ni) (snd ni))) (U \<times> {..<VIRTUAL_NODES})"
  shows "slots_exact H U (add_node H r x)"
proof (cases "x \<in> nodes r")
  case True
  with ex show ?thesis by (simp add: add_node_def)
next
  case False
  from ex have inv: "ring_inv r" and sub: "nodes r \<subseteq> U"
    and st: "set (ring r) = slot_of H ` (nodes r \<times> {..<VIRTUAL_NODES})"
    by (simp_all add: slots_exact_def)
  have dist: "distinct (map fst (ring r))" using inv by (simp add: ring_inv_def)
  have n: "nodes (add_node H r x) = insert x (nodes r)"
    using False by (simp add: add_node_def Let_def)
  let ?h = "\<lambda>i. H (virtual_key x i)"
  have fresh: "?h i \<notin> fst ` set (ring r)" if "i < VIRTUAL_NODES" for i
  proof
    assume "?h i \<in> fst ` set (ring r)"
    then obtain y j where yj: "y \<in> nodes r" "j < VIRTUAL_NODES" "?h i = H (virtual_key y j)"
      unfolding st by (auto simp: slot_of_def)
    have "(x, i) = (y, j)"
      using inj_onD[OF inj, of "(x, i)" "(y, j)"] yj that xU sub by auto
    with yj False show False by simp
  qed
  have diff: "?h i \<noteq> ?h j" if "i < VIRTUAL_NODES" "j < VIRTUAL_NODES" "i \<noteq> j" for i j
    using inj_onD[OF inj, of "(x, i)" "(x, j)"] that xU by auto
  have three: "{..<VIRTUAL_NODES} = {0, 1, 2}"
    by (auto simp: VIRTUAL_NODES_def)
  have f0: "?h 0 \<notin> fst ` set (ring r)" and f1: "?h 1 \<notin> fst ` set (ring r)"
    and f2: "?h 2 \<notin> fst ` set (ring r)"
    using fresh by (simp_all add: VIRTUAL_NODES_def)
  have d01: "?h 0 \<noteq> ?h 1" and d02: "?h 0 \<noteq> ?h 2" and d12: "?h 1 \<noteq> ?h 2"
    using diff by (simp_all add: VIRTUAL_NODES_def)
  have "set (ring (add_node H r x)) = set (ring r) \<union> {(?h 0, x), (?h 1, x), (?h 2, x)}"
    using False dist f0 f1 f2 d01 d02 d12
    by (auto simp: ring_add_node set_update distinct_update rev_image_eqI)
  also have "\<dots> = slot_of H ` (insert x (nodes r) \<times> {..<VIRTUAL_NODES})"
    unfolding st three by (auto simp: slot_of_def)
  finally show ?thesis
    using ring_inv_add[OF inv] sub xU n by (simp add: slots_exact_def)
qed

lemma slots_exact_foldl:
  assumes "slots_exact H U r" and "op_node ` set ops \<subseteq> U"
    and "inj_on (\<lambda>ni. H (virtual_key (fst ni) (snd ni))) (U \<times> {..<VIRTUAL_NODES})"
  shows "slots_exact H U (foldl (apply_op H) r ops)"
  using assms
proof (induction ops arbitrary: r)
  case Nil
  then show ?case by simp
next
  case (Cons a ops)
  then show ?case by (cases a) (simp_all add: slots_exact_add slots_exact_remove)
qed

lemma slots_exact_run:
  assumes "collision_free H (map op_node ops)"
  shows "slots_exact H (op_node ` set ops) (run_ops H ops)"
  unfolding run_ops_def
  using slots_exact_foldl[OF slots_exact_empty, of ops "op_node ` set ops" H]
    collision_free_inj[OF assms] by simp

lemma slots_exact_length:
  assumes ex: "slots_exact H U r"
    and inj: "inj_on (\<lambda>ni. H (virtual_key (fst ni) (snd ni))) (U \<times> {..<VIRTUAL_NODES})"
  shows "length (ring r) = 3 * card (nodes r)"
proof -
  from ex have inv: "ring_inv r" and sub: "nodes r \<subseteq> U"
    and st: "set (ring r) = slot_of H ` (nodes r \<times> {..<VIRTUAL_NODES})"
    by (simp_all add: slots_exact_def)
  have "distinct (map fst (ring r))" using inv by (simp add: ring_inv_def)
  then have "distinct (ring r)" by (simp add: distinct_map)
  then have "length (ring r) = card (set (ring r))" by (simp add: distinct_card)
  also have "\<dots> = card (nodes r \<times> {..<VIRTUAL_NODES})"
    unfolding st
  proof (rule card_image)
    show "inj_on (slot_of H) (nodes r \<times> {..<VIRTUAL_NODES})"
    proof (rule inj_onI)
      fix a b assume "a \<in> nodes r \<times> {..<VIRTUAL_NODES}" "b \<in> nodes r \<times> {..<VIRTUAL_NODES}"
        "slot_of H a = slot_of H b"
      then show "a = b" using inj_onD[OF inj, of a b] sub by (auto simp: slot_of_def)
    qed
  qed
  also have "\<dots> = 3 * card (nodes r)"
    by (simp add: VIRTUAL_NODES_def card_cartesian_product)
  finally show ?thesis .
qed

text \<open>
  C4. Ring structural invariant, after every sequence of \<open>add_node\<close> and
  \<open>remove_node\<close> calls from the empty ring: the number of ring positions
  (ordered positions, and slots) is 3 times the number of members, provided no
  two virtual keys of the node ids involved hash to the same position; and,
  with or without collisions, every slot is owned by a member.
\<close>

theorem ring_structure_invariant:
  "(collision_free H (map op_node ops) \<longrightarrow>
      length (sorted_keys (run_ops H ops)) = 3 * card (nodes (run_ops H ops)) \<and>
      length (ring (run_ops H ops)) = 3 * card (nodes (run_ops H ops))) \<and>
   (\<forall>(pos, owner) \<in> set (ring (run_ops H ops)). owner \<in> nodes (run_ops H ops))"
proof (intro conjI impI)
  assume cf: "collision_free H (map op_node ops)"
  have len: "length (ring (run_ops H ops)) = 3 * card (nodes (run_ops H ops))"
    using slots_exact_length[OF slots_exact_run[OF cf]] collision_free_inj[OF cf] by simp
  then show "length (ring (run_ops H ops)) = 3 * card (nodes (run_ops H ops))" .
  have "sorted_keys (run_ops H ops) = sort (map fst (ring (run_ops H ops)))"
    using ring_inv_run[of H ops] by (simp add: ring_inv_def)
  with len show "length (sorted_keys (run_ops H ops)) = 3 * card (nodes (run_ops H ops))"
    by simp
next
  show "\<forall>(pos, owner) \<in> set (ring (run_ops H ops)). owner \<in> nodes (run_ops H ops)"
    using ring_inv_run[of H ops] by (auto simp: ring_inv_def)
qed

text \<open>Two nodes added, the first removed again: one member, three positions.\<close>

theorem ring_structure_invariant_witness:
  "collision_free bytes_hash (map op_node [Add ''a'', Add ''b'', Remove ''a'']) \<and>
   nodes (run_ops bytes_hash [Add ''a'', Add ''b'', Remove ''a'']) = {''b''} \<and>
   length (sorted_keys (run_ops bytes_hash [Add ''a'', Add ''b'', Remove ''a''])) = 3 \<and>
   length (ring (run_ops bytes_hash [Add ''a'', Add ''b'', Remove ''a''])) = 3"
proof -
  have cf: "collision_free bytes_hash (map op_node [Add ''a'', Add ''b'', Remove ''a''])"
    by (simp add: collision_free_def virtual_keys_def virtual_key_def VIRTUAL_NODES_def
        upt_rec str_nat.simps bytes_hash_def)
  have n: "nodes (run_ops bytes_hash [Add ''a'', Add ''b'', Remove ''a'']) = {''b''}"
    by (auto simp: run_ops_def add_node_def remove_node_def empty_ring_def Let_def)
  from ring_structure_invariant[of bytes_hash "[Add ''a'', Add ''b'', Remove ''a'']"] cf n
  show ?thesis by auto
qed

section \<open>The replica walk of \<open>get_nodes\<close>\<close>

lemma set_keep_first: "set (keep_first xs) = set xs"
  by (induction xs rule: keep_first.induct) auto

lemma distinct_keep_first: "distinct (keep_first xs)"
  by (induction xs rule: keep_first.induct) (auto simp: set_keep_first)

lemma collect_nodes_eq:
  assumes "\<And>i. i \<in> set is \<Longrightarrow>
             ring_lookup r (sorted_keys r ! ((idx + i) mod length (sorted_keys r))) = Inr (f i)"
  shows "collect_nodes r idx count is ns (set ns) =
         Inr (if int (length ns) < count
              then take (nat count) (ns @ keep_first (filter (\<lambda>y. y \<notin> set ns) (map f is)))
              else ns @ keep_first (filter (\<lambda>y. y \<notin> set ns) (map f is)))"
  using assms
proof (induction "is" arbitrary: ns)
  case Nil
  then show ?case by simp
next
  case (Cons i "is")
  have look: "ring_lookup r (sorted_keys r ! ((idx + i) mod length (sorted_keys r))) = Inr (f i)"
    using Cons.prems by simp
  have IH: "collect_nodes r idx count is ms (set ms) =
         Inr (if int (length ms) < count
              then take (nat count) (ms @ keep_first (filter (\<lambda>y. y \<notin> set ms) (map f is)))
              else ms @ keep_first (filter (\<lambda>y. y \<notin> set ms) (map f is)))" for ms
    using Cons.IH[of ms] Cons.prems by simp
  show ?case
  proof (cases "f i \<in> set ns")
    case True
    then show ?thesis using look IH[of ns] by simp
  next
    case False
    let ?ms = "ns @ [f i]"
    have flt: "filter (\<lambda>y. y \<noteq> f i) (filter (\<lambda>y. y \<notin> set ns) (map f is))
               = filter (\<lambda>y. y \<notin> set ?ms) (map f is)"
      by (simp add: conj_commute)
    have full: "ns @ keep_first (filter (\<lambda>y. y \<notin> set ns) (map f (i # is)))
                = ?ms @ keep_first (filter (\<lambda>y. y \<notin> set ?ms) (map f is))"
      using False flt by simp
    show ?thesis
    proof (cases "int (length ?ms) = count")
      case True
      then have "nat count = length ?ms" by simp
      then have "take (nat count) (?ms @ keep_first (filter (\<lambda>y. y \<notin> set ?ms) (map f is))) = ?ms"
        by simp
      moreover have "collect_nodes r idx count (i # is) ns (set ns) = Inr ?ms"
        using look False True by simp
      moreover have "int (length ns) < count" using True by simp
      ultimately show ?thesis unfolding full by simp
    next
      case ne: False
      have "collect_nodes r idx count (i # is) ns (set ns) = collect_nodes r idx count is ?ms (set ?ms)"
        using look False ne by simp
      moreover have "(int (length ?ms) < count) = (int (length ns) < count)"
        using ne by auto
      ultimately show ?thesis unfolding full using IH[of ?ms] by simp
    qed
  qed
qed

lemma positions_rotate:
  "map (\<lambda>i. sk ! ((idx + i) mod length sk)) [0..<length sk] = rotate idx sk"
  by (rule nth_equalityI) (simp_all add: nth_rotate)

lemma filter_split:
  assumes "\<forall>p\<in>set xs. \<not> P p" and "\<forall>p\<in>set ys. P p"
  shows "filter P (xs @ ys) = ys" and "filter (\<lambda>p. \<not> P p) (xs @ ys) = xs"
  using assms by (simp_all add: filter_empty_conv)

lemma rotate_ring_order:
  assumes "sorted sk"
  shows "rotate (if bisect_right sk h = length sk then 0 else bisect_right sk h) sk
         = filter (\<lambda>p. h < p) sk @ filter (\<lambda>p. \<not> h < p) sk"
proof -
  define i where "i = bisect_right sk h"
  have le: "i \<le> length sk" using bisect_right_spec(1)[OF assms, of h] by (simp add: i_def)
  have lo: "\<forall>p\<in>set (take i sk). \<not> h < p"
  proof
    fix p assume "p \<in> set (take i sk)"
    then obtain j where "j < i" "p = sk ! j" using le by (auto simp: in_set_conv_nth)
    then show "\<not> h < p" using bisect_right_spec(2)[OF assms, of j h] by (simp add: i_def not_less)
  qed
  have hi: "\<forall>p\<in>set (drop i sk). h < p"
  proof
    fix p assume "p \<in> set (drop i sk)"
    then obtain j where "j < length sk - i" "p = sk ! (i + j)" using le by (auto simp: in_set_conv_nth)
    then show "h < p" using bisect_right_spec(3)[OF assms, of h "i + j"] by (simp add: i_def)
  qed
  have f: "filter (\<lambda>p. h < p) sk @ filter (\<lambda>p. \<not> h < p) sk = drop i sk @ take i sk"
    using filter_split[OF lo hi] by simp
  show ?thesis
  proof (cases "i = length sk")
    case True
    then show ?thesis using f by (simp add: i_def[symmetric])
  next
    case False
    with le have "i < length sk" by simp
    then show ?thesis using f False by (simp add: i_def[symmetric] rotate_drop_take)
  qed
qed

lemma map_filter_total:
  "(\<And>x. x \<in> set xs \<Longrightarrow> g x \<noteq> None) \<Longrightarrow> List.map_filter g xs = map (\<lambda>x. the (g x)) xs"
  by (induction xs) (auto split: option.splits)

lemma ring_order_set:
  "ring_inv r \<Longrightarrow> set (ring_order r h) = fst ` set (ring r)"
  by (auto simp: ring_order_def ring_inv_def)

lemma walk_as_map:
  assumes "ring_inv r"
  shows "successor_walk H r key =
         keep_first (map (\<lambda>p. the (map_of (ring r) p)) (ring_order r (H key)))"
proof -
  have "List.map_filter (map_of (ring r)) (ring_order r (H key)) =
        map (\<lambda>p. the (map_of (ring r) p)) (ring_order r (H key))"
  proof (rule map_filter_total)
    fix p assume "p \<in> set (ring_order r (H key))"
    then have "p \<in> fst ` set (ring r)" using ring_order_set[OF assms] by simp
    then show "map_of (ring r) p \<noteq> None" by (simp add: map_of_eq_None_iff)
  qed
  then show ?thesis by (simp add: successor_walk_def)
qed

lemma get_nodes_eq:
  assumes inv: "ring_inv r" and ne: "ring r \<noteq> []"
  shows "get_nodes H r key count =
         Inr (if 0 < (if int (card (nodes r)) < count then int (card (nodes r)) else count)
              then take (nat (if int (card (nodes r)) < count then int (card (nodes r)) else count))
                     (successor_walk H r key)
              else successor_walk H r key)"
proof -
  let ?sk = "sorted_keys r"
  have sk: "?sk = sort (map fst (ring r))" using inv by (simp add: ring_inv_def)
  have srt: "sorted ?sk" using sk by simp
  have st: "set ?sk = fst ` set (ring r)" using sk by simp
  define idx where "idx = (if bisect_right ?sk (H key) = length ?sk then 0 else bisect_right ?sk (H key))"
  define c where "c = (if int (card (nodes r)) < count then int (card (nodes r)) else count)"
  define f where "f = (\<lambda>i. the (map_of (ring r) (?sk ! ((idx + i) mod length ?sk))))"
  have look: "ring_lookup r (?sk ! ((idx + i) mod length ?sk)) = Inr (f i)"
    if "i \<in> set [0..<length ?sk]" for i
  proof -
    from that have "0 < length ?sk" by auto
    then have "?sk ! ((idx + i) mod length ?sk) \<in> set ?sk" by simp
    then have "?sk ! ((idx + i) mod length ?sk) \<in> fst ` set (ring r)" using st by simp
    then obtain y where "map_of (ring r) (?sk ! ((idx + i) mod length ?sk)) = Some y"
      by (metis domD dom_map_of_conv_image_fst)
    then show ?thesis by (simp add: ring_lookup_def f_def)
  qed
  have "map f [0..<length ?sk] =
        map (\<lambda>p. the (map_of (ring r) p)) (map (\<lambda>i. ?sk ! ((idx + i) mod length ?sk)) [0..<length ?sk])"
    by (simp add: f_def)
  also have "\<dots> = map (\<lambda>p. the (map_of (ring r) p)) (ring_order r (H key))"
    unfolding positions_rotate idx_def rotate_ring_order[OF srt] by (simp add: ring_order_def)
  finally have owners: "keep_first (map f [0..<length ?sk]) = successor_walk H r key"
    by (simp add: walk_as_map[OF inv])
  have "get_nodes H r key count = collect_nodes r idx c [0..<length ?sk] [] (set [])"
    using ne by (simp add: get_nodes_def Let_def idx_def c_def)
  also have "\<dots> = Inr (if int (length ([]::string list)) < c
              then take (nat c) ([] @ keep_first (filter (\<lambda>y. y \<notin> set []) (map f [0..<length ?sk])))
              else [] @ keep_first (filter (\<lambda>y. y \<notin> set []) (map f [0..<length ?sk])))"
    by (rule collect_nodes_eq) (rule look)
  finally show ?thesis using owners by (simp add: c_def)
qed

lemma ring_order_hd:
  assumes "sorted sk" and "sk \<noteq> []"
  shows "hd (filter (\<lambda>p. h < p) sk @ filter (\<lambda>p. \<not> h < p) sk)
         = sk ! (if bisect_right sk h = length sk then 0 else bisect_right sk h)"
proof -
  have "bisect_right sk h \<le> length sk" using bisect_right_spec(1)[OF assms(1)] .
  then show ?thesis
    unfolding rotate_ring_order[OF assms(1), symmetric]
    using assms(2) by (auto simp: hd_rotate_conv_nth)
qed

lemma get_node_hd_walk:
  assumes inv: "ring_inv r" and ne: "ring r \<noteq> []"
  shows "get_node H r key = Inr (hd (successor_walk H r key))"
proof -
  let ?sk = "sorted_keys r"
  have sk: "?sk = sort (map fst (ring r))" using inv by (simp add: ring_inv_def)
  have srt: "sorted ?sk" using sk by simp
  have st: "set ?sk = fst ` set (ring r)" using sk by simp
  have skne: "?sk \<noteq> []" using st ne by auto
  have "ring_order r (H key) \<noteq> []"
    using ring_order_set[OF inv, of "H key"] ne by auto
  then obtain p ps where pp: "ring_order r (H key) = p # ps" by (cases "ring_order r (H key)") auto
  then have hdw: "hd (successor_walk H r key) = the (map_of (ring r) p)"
    by (simp add: walk_as_map[OF inv])
  have "p = hd (ring_order r (H key))" using pp by simp
  also have "\<dots> = succ_pos (fst ` set (ring r)) (H key)"
    unfolding ring_order_def ring_order_hd[OF srt skne] nth_successor[OF srt skne] st ..
  finally show ?thesis using get_node_eq(1)[OF inv ne, of H key] hdw by simp
qed

lemma walk_members:
  assumes ex: "slots_exact H U r"
  shows "set (successor_walk H r key) = nodes r"
    and "distinct (successor_walk H r key)"
    and "length (successor_walk H r key) = card (nodes r)"
proof -
  from ex have inv: "ring_inv r"
    and st: "set (ring r) = slot_of H ` (nodes r \<times> {..<VIRTUAL_NODES})"
    by (simp_all add: slots_exact_def)
  have dist: "distinct (map fst (ring r))" using inv by (simp add: ring_inv_def)
  have "set (successor_walk H r key) = (\<lambda>p. the (map_of (ring r) p)) ` fst ` set (ring r)"
    by (simp add: walk_as_map[OF inv] set_keep_first ring_order_set[OF inv])
  also have "\<dots> = snd ` set (ring r)"
  proof -
    have "the (map_of (ring r) (fst kv)) = snd kv" if "kv \<in> set (ring r)" for kv
    proof -
      obtain k v where kv: "kv = (k, v)" by (cases kv)
      with that dist have "map_of (ring r) k = Some v" by simp
      with kv show ?thesis by simp
    qed
    then show ?thesis by (force simp: image_iff)
  qed
  also have "\<dots> = nodes r"
  proof -
    have "snd ` slot_of H ` (nodes r \<times> {..<VIRTUAL_NODES}) = fst ` (nodes r \<times> {..<VIRTUAL_NODES})"
      by (simp add: image_image slot_of_def)
    also have "\<dots> = nodes r"
    proof -
      have "(0::nat) \<in> {..<VIRTUAL_NODES}" by (simp add: VIRTUAL_NODES_def)
      then have "{..<VIRTUAL_NODES} \<noteq> {}" by blast
      then show ?thesis by simp
    qed
    finally show ?thesis unfolding st .
  qed
  finally show s: "set (successor_walk H r key) = nodes r" .
  show d: "distinct (successor_walk H r key)"
    by (simp add: walk_as_map[OF inv] distinct_keep_first)
  from s d show "length (successor_walk H r key) = card (nodes r)"
    by (metis distinct_card)
qed

lemma slots_exact_nonempty:
  assumes "slots_exact H U r" and "nodes r \<noteq> {}"
  shows "ring r \<noteq> []"
proof -
  from assms(2) obtain x where "x \<in> nodes r" by auto
  then have "slot_of H (x, 0) \<in> set (ring r)"
    using assms(1) by (auto simp: slots_exact_def VIRTUAL_NODES_def)
  then show ?thesis by auto
qed

section \<open>Replica selection: counts\<close>

lemma singleton_list: "distinct xs \<Longrightarrow> set xs = {a} \<Longrightarrow> xs = [a]"
proof -
  assume d: "distinct xs" and s: "set xs = {a}"
  then have "length xs = 1" by (metis distinct_card card.empty card_insert_disjoint
        empty_iff finite.emptyI One_nat_def)
  then obtain y where "xs = [y]" by (cases xs) auto
  with s show ?thesis by simp
qed

lemma empty_members_empty_ring: "ring_inv r \<Longrightarrow> nodes r = {} \<Longrightarrow> ring r = []"
  by (cases "ring r") (auto simp: ring_inv_def)

text \<open>
  C3, as the code has it. On a ring with at least one member whose virtual keys
  do not collide, \<open>get_nodes key n\<close> with \<open>1 \<le> n\<close> returns \<open>n\<close> node ids
  when \<open>n \<le> |members|\<close> and \<open>|members|\<close> node ids otherwise, without error:
  distinct members, the primary (the result of \<open>get_node key\<close>) first, the
  rest in ring-successor order.
\<close>

theorem get_nodes_count:
  assumes cf: "collision_free H (map op_node ops)"
    and ne: "nodes (run_ops H ops) \<noteq> {}" and n: "1 \<le> n"
  shows "\<exists>ns. get_nodes H (run_ops H ops) key n = Inr ns \<and>
           length ns = (if n \<le> int (card (nodes (run_ops H ops))) then nat n
                        else card (nodes (run_ops H ops))) \<and>
           distinct ns \<and> set ns \<subseteq> nodes (run_ops H ops) \<and>
           get_node H (run_ops H ops) key = Inr (hd ns) \<and>
           ns = take (length ns) (successor_walk H (run_ops H ops) key)"
proof -
  let ?r = "run_ops H ops"
  let ?w = "successor_walk H ?r key"
  define c where "c = (if int (card (nodes ?r)) < n then int (card (nodes ?r)) else n)"
  have ex: "slots_exact H (op_node ` set ops) ?r" by (rule slots_exact_run[OF cf])
  have inv: "ring_inv ?r" by (rule ring_inv_run)
  have rne: "ring ?r \<noteq> []" by (rule slots_exact_nonempty[OF ex ne])
  have ws: "set ?w = nodes ?r" and wd: "distinct ?w" and wl: "length ?w = card (nodes ?r)"
    using walk_members[OF ex, of key] by simp_all
  have fin: "finite (nodes ?r)" using inv by (simp add: ring_inv_def)
  with ne have cpos: "0 < card (nodes ?r)" by (simp add: card_gt_0_iff)
  have c1: "0 < c" and c2: "nat c \<le> length ?w" using n cpos wl by (auto simp: c_def)
  have g: "get_nodes H ?r key n = Inr (take (nat c) ?w)"
    using get_nodes_eq[OF inv rne, of H key n] c1 by (simp add: c_def)
  have len: "length (take (nat c) ?w) = nat c" using c2 by simp
  have "nat c = (if n \<le> int (card (nodes ?r)) then nat n else card (nodes ?r))"
    by (auto simp: c_def)
  moreover have "distinct (take (nat c) ?w)" using wd by simp
  moreover have "set (take (nat c) ?w) \<subseteq> nodes ?r" using ws set_take_subset[of "nat c" ?w] by simp
  moreover have "hd (take (nat c) ?w) = hd ?w" using c1 by (cases ?w) (auto simp: take_Cons')
  then have "get_node H ?r key = Inr (hd (take (nat c) ?w))"
    using get_node_hd_walk[OF inv rne, of H key] by simp
  ultimately show ?thesis using g len by simp
qed

text \<open>
  C10. On a ring with at least one member whose virtual keys do not collide,
  \<open>get_nodes key count\<close> with \<open>count \<le> 0\<close> does not return an empty list: it
  returns every member once, in ring-successor order from the key's successor
  position.
\<close>

theorem get_nodes_nonpositive_count:
  assumes cf: "collision_free H (map op_node ops)"
    and ne: "nodes (run_ops H ops) \<noteq> {}" and n: "count \<le> 0"
  shows "get_nodes H (run_ops H ops) key count = Inr (successor_walk H (run_ops H ops) key) \<and>
         successor_walk H (run_ops H ops) key \<noteq> [] \<and>
         distinct (successor_walk H (run_ops H ops) key) \<and>
         set (successor_walk H (run_ops H ops) key) = nodes (run_ops H ops) \<and>
         length (successor_walk H (run_ops H ops) key) = card (nodes (run_ops H ops))"
proof -
  let ?r = "run_ops H ops"
  let ?w = "successor_walk H ?r key"
  have ex: "slots_exact H (op_node ` set ops) ?r" by (rule slots_exact_run[OF cf])
  have inv: "ring_inv ?r" by (rule ring_inv_run)
  have rne: "ring ?r \<noteq> []" by (rule slots_exact_nonempty[OF ex ne])
  have ws: "set ?w = nodes ?r" and wd: "distinct ?w" and wl: "length ?w = card (nodes ?r)"
    using walk_members[OF ex, of key] by simp_all
  have "\<not> int (card (nodes ?r)) < count" using n by simp
  then have "get_nodes H ?r key count = Inr ?w"
    using get_nodes_eq[OF inv rne, of H key count] n by simp
  moreover have "?w \<noteq> []" using ws ne by auto
  ultimately show ?thesis using ws wd wl by simp
qed

lemma cf_ab: "collision_free bytes_hash [''a'', ''b'']"
  by (simp add: collision_free_def virtual_keys_def virtual_key_def VIRTUAL_NODES_def
      upt_rec str_nat.simps bytes_hash_def)

lemma cf_a: "collision_free bytes_hash [''a'']"
  by (simp add: collision_free_def virtual_keys_def virtual_key_def VIRTUAL_NODES_def
      upt_rec str_nat.simps bytes_hash_def)

lemma nodes_ab: "nodes (run_ops H [Add ''a'', Add ''b'']) = {''a'', ''b''}"
  by (auto simp: run_ops_def add_node_def empty_ring_def Let_def)

lemma nodes_a: "nodes (run_ops H [Add ''a'']) = {''a''}"
  by (simp add: run_ops_def add_node_def empty_ring_def Let_def)

text \<open>Two members, three requested: both come back.\<close>

theorem get_nodes_count_witness:
  "collision_free bytes_hash (map op_node [Add ''a'', Add ''b'']) \<and>
   nodes (run_ops bytes_hash [Add ''a'', Add ''b'']) \<noteq> {} \<and> (1::int) \<le> 3 \<and>
   (\<exists>ns. get_nodes bytes_hash (run_ops bytes_hash [Add ''a'', Add ''b'']) ''user:42'' 3 = Inr ns \<and>
         length ns = 2 \<and> distinct ns \<and> set ns \<subseteq> {''a'', ''b''})"
proof -
  have cf: "collision_free bytes_hash (map op_node [Add ''a'', Add ''b''])"
    using cf_ab by simp
  have ne: "nodes (run_ops bytes_hash [Add ''a'', Add ''b'']) \<noteq> {}"
    by (simp add: nodes_ab)
  have n: "(1::int) \<le> 3" by simp
  from get_nodes_count[OF cf ne n, of "''user:42''"] cf ne show ?thesis
    by (auto simp: nodes_ab)
qed

text \<open>
  C3 as first stated also covers \<open>n = 0\<close>, where it asks for exactly 0 ids; on
  a one-member ring the call returns that member. (The digest plays no part:
  every position belongs to the one member.)
\<close>

theorem get_nodes_zero_counterexample:
  "nodes (run_ops bytes_hash [Add ''a'']) = {''a''} \<and>
   get_nodes bytes_hash (run_ops bytes_hash [Add ''a'']) ''user:42'' 0 = Inr [''a'']"
proof -
  let ?r = "run_ops bytes_hash [Add ''a'']"
  have cf: "collision_free bytes_hash (map op_node [Add ''a''])" using cf_a by simp
  have ex: "slots_exact bytes_hash (op_node ` set [Add ''a'']) ?r" by (rule slots_exact_run[OF cf])
  have inv: "ring_inv ?r" by (rule ring_inv_run)
  have ne: "nodes ?r \<noteq> {}" by (simp add: nodes_a)
  have rne: "ring ?r \<noteq> []" by (rule slots_exact_nonempty[OF ex ne])
  have "successor_walk bytes_hash ?r ''user:42'' = [''a'']"
    using walk_members(1,2)[OF ex, of "''user:42''"] by (intro singleton_list) (simp_all add: nodes_a)
  then have "get_nodes bytes_hash ?r ''user:42'' 0 = Inr [''a'']"
    using get_nodes_eq[OF inv rne, of bytes_hash "''user:42''" 0] by simp
  then show ?thesis by (simp add: nodes_a)
qed

text \<open>Two members, \<open>count = -1\<close>: the whole walk, of length 2.\<close>

theorem get_nodes_nonpositive_count_witness:
  "collision_free bytes_hash (map op_node [Add ''a'', Add ''b'']) \<and>
   nodes (run_ops bytes_hash [Add ''a'', Add ''b'']) \<noteq> {} \<and> (- 1 :: int) \<le> 0 \<and>
   get_nodes bytes_hash (run_ops bytes_hash [Add ''a'', Add ''b'']) ''user:42'' (- 1)
     = Inr (successor_walk bytes_hash (run_ops bytes_hash [Add ''a'', Add ''b'']) ''user:42'') \<and>
   length (successor_walk bytes_hash (run_ops bytes_hash [Add ''a'', Add ''b'']) ''user:42'') = 2"
proof -
  have cf: "collision_free bytes_hash (map op_node [Add ''a'', Add ''b''])"
    using cf_ab by simp
  have ne: "nodes (run_ops bytes_hash [Add ''a'', Add ''b'']) \<noteq> {}"
    by (simp add: nodes_ab)
  have n: "(- 1 :: int) \<le> 0" by simp
  from get_nodes_nonpositive_count[OF cf ne n, of "''user:42''"] cf ne show ?thesis
    by (simp add: nodes_ab)
qed

section \<open>The storage node\<close>

lemma word_split:
  assumes w: "is_word w" and rest: "rest = [] \<or> is_space (hd rest)"
  shows "dropWhile is_space (w @ rest) = w @ rest"
    and "takeWhile (\<lambda>c. \<not> is_space c) (w @ rest) = w"
    and "dropWhile (\<lambda>c. \<not> is_space c) (w @ rest) = rest"
proof -
  from w have ne: "w \<noteq> []" and all: "\<And>c. c \<in> set w \<Longrightarrow> \<not> is_space c"
    by (simp_all add: is_word_def list_all_iff)
  from ne all have "\<not> is_space (hd (w @ rest))" by (cases w) auto
  then show "dropWhile is_space (w @ rest) = w @ rest"
    using ne by (cases "w @ rest") auto
  have t: "takeWhile (\<lambda>c. \<not> is_space c) rest = []" using rest by (cases rest) auto
  have d: "dropWhile (\<lambda>c. \<not> is_space c) rest = rest" using rest by (cases rest) auto
  show "takeWhile (\<lambda>c. \<not> is_space c) (w @ rest) = w"
    using all t by (simp add: takeWhile_append2)
  show "dropWhile (\<lambda>c. \<not> is_space c) (w @ rest) = rest"
    using all d by (simp add: dropWhile_append2)
qed

lemma split_ws_word:
  assumes "is_word w" and "rest = [] \<or> is_space (hd rest)"
  shows "split_ws (Suc n) (w @ rest) = w # split_ws n rest"
proof -
  from assms(1) have "w @ rest \<noteq> []" by (simp add: is_word_def)
  then show ?thesis by (simp add: word_split[OF assms] Let_def)
qed

lemma split_ws_empty: "split_ws n [] = []"
  by (cases n) simp_all

lemma split_ws_value:
  assumes "is_value v"
  shows "split_ws 0 (CHR '' '' # v) = [v]"
proof -
  have sp: "is_space CHR '' ''" by (simp add: is_space_def)
  from assms have "dropWhile is_space v = v" by (cases v) (auto simp: is_value_def)
  with sp assms show ?thesis by (simp add: is_value_def)
qed

lemma split_ws_3:
  assumes "is_word cmd" and "is_word k" and "is_value v"
  shows "split_ws 2 (cmd @ '' '' @ k @ '' '' @ v) = [cmd, k, v]"
proof -
  have "split_ws (Suc (Suc 0)) (cmd @ (CHR '' '' # k @ CHR '' '' # v))
        = cmd # split_ws (Suc 0) (CHR '' '' # k @ CHR '' '' # v)"
    by (rule split_ws_word[OF assms(1)]) (simp add: is_space_def)
  also have "split_ws (Suc 0) (CHR '' '' # k @ CHR '' '' # v) = split_ws (Suc 0) (k @ CHR '' '' # v)"
    by (simp add: is_space_def)
  also have "\<dots> = k # split_ws 0 (CHR '' '' # v)"
    by (rule split_ws_word[OF assms(2)]) (simp add: is_space_def)
  finally have "split_ws (Suc (Suc 0)) (cmd @ (CHR '' '' # k @ CHR '' '' # v)) = [cmd, k, v]"
    by (simp only: split_ws_value[OF assms(3)])
  then show ?thesis by (simp add: numeral_2_eq_2 del: split_ws.simps)
qed

lemma split_ws_2:
  assumes "is_word cmd" and "is_word k"
  shows "split_ws 2 (cmd @ '' '' @ k) = [cmd, k]"
proof -
  have "split_ws (Suc (Suc 0)) (cmd @ (CHR '' '' # k))
        = cmd # split_ws (Suc 0) (CHR '' '' # k)"
    by (rule split_ws_word[OF assms(1)]) (simp add: is_space_def)
  also have "split_ws (Suc 0) (CHR '' '' # k) = split_ws (Suc 0) (k @ [])"
    by (simp add: is_space_def)
  also have "\<dots> = k # split_ws 0 []"
    by (rule split_ws_word[OF assms(2)]) simp
  finally have "split_ws (Suc (Suc 0)) (cmd @ (CHR '' '' # k)) = [cmd, k]"
    by (simp only: split_ws_empty)
  then show ?thesis by (simp add: numeral_2_eq_2 del: split_ws.simps)
qed

lemma length_split_ws: "length (split_ws n s) \<le> Suc n"
  by (induction n arbitrary: s) (simp_all add: Let_def)

lemma word_PUT: "is_word ''PUT''" and word_GET: "is_word ''GET''"
  and word_DELETE: "is_word ''DELETE''"
  by (simp_all add: is_word_def is_space_def)

lemma put_command:
  assumes "is_word k" and "is_value v"
  shows "node_process_command n (''PUT '' @ k @ '' '' @ v) = (''OK'', node_put n k v)"
  using split_ws_3[OF word_PUT assms]
  by (simp add: node_process_command_def Let_def)

lemma get_command:
  assumes "is_word k"
  shows "node_process_command n (''GET '' @ k) =
         (case node_get n k of Some v \<Rightarrow> (''VALUE '' @ v, n) | None \<Rightarrow> (''NOT_FOUND'', n))"
  using split_ws_2[OF word_GET assms]
  by (simp add: node_process_command_def Let_def)

lemma delete_command:
  assumes "is_word k"
  shows "node_process_command n (''DELETE '' @ k) = (''OK'', node_delete n k)"
  using split_ws_2[OF word_DELETE assms]
  by (simp add: node_process_command_def Let_def)

lemma get_after_put: "node_get (node_put n k v) k = Some v"
  by (simp add: node_get_def node_put_def update_conv')

lemma get_after_delete: "node_get (node_delete n k) k = None"
proof (cases "k \<in> fst ` set (data n)")
  case True
  then show ?thesis by (simp add: node_get_def node_delete_def delete_conv')
next
  case False
  then have "map_of (data n) k = None" by (simp add: map_of_eq_None_iff)
  with False show ?thesis by (simp add: node_get_def node_delete_def)
qed

text \<open>
  C7. Single-node round trip. Storing a value under a key and reading the key
  back gives that value, and after a delete the key is gone, for every pair of
  strings. Over the wire, for every key that is one word and every value that
  does not start with whitespace: \<open>PUT key value\<close> answers \<open>OK\<close>, the next
  \<open>GET key\<close> answers \<open>VALUE value\<close>, \<open>DELETE key\<close> answers \<open>OK\<close>, the next
  \<open>GET key\<close> answers \<open>NOT_FOUND\<close>, and \<open>DELETE key\<close> answers \<open>OK\<close> on any node
  state, whether or not the key is there.
\<close>

theorem node_round_trip:
  "node_get (node_put n key val) key = Some val \<and>
   node_get (node_delete (node_put n key val) key) key = None \<and>
   (is_word key \<and> is_value val \<longrightarrow>
      (let n1 = snd (node_process_command n (''PUT '' @ key @ '' '' @ val));
           n2 = snd (node_process_command n1 (''GET '' @ key));
           n3 = snd (node_process_command n2 (''DELETE '' @ key));
           n4 = snd (node_process_command n3 (''GET '' @ key))
       in fst (node_process_command n (''PUT '' @ key @ '' '' @ val)) = ''OK'' \<and>
          fst (node_process_command n1 (''GET '' @ key)) = ''VALUE '' @ val \<and>
          fst (node_process_command n2 (''DELETE '' @ key)) = ''OK'' \<and>
          fst (node_process_command n3 (''GET '' @ key)) = ''NOT_FOUND'' \<and>
          fst (node_process_command n4 (''DELETE '' @ key)) = ''OK'')) \<and>
   (is_word key \<longrightarrow> fst (node_process_command m (''DELETE '' @ key)) = ''OK'')"
proof (intro conjI impI)
  show "node_get (node_put n key val) key = Some val" by (rule get_after_put)
  show "node_get (node_delete (node_put n key val) key) key = None" by (rule get_after_delete)
next
  assume a: "is_word key \<and> is_value val"
  then have k: "is_word key" and v: "is_value val" by simp_all
  show "let n1 = snd (node_process_command n (''PUT '' @ key @ '' '' @ val));
           n2 = snd (node_process_command n1 (''GET '' @ key));
           n3 = snd (node_process_command n2 (''DELETE '' @ key));
           n4 = snd (node_process_command n3 (''GET '' @ key))
       in fst (node_process_command n (''PUT '' @ key @ '' '' @ val)) = ''OK'' \<and>
          fst (node_process_command n1 (''GET '' @ key)) = ''VALUE '' @ val \<and>
          fst (node_process_command n2 (''DELETE '' @ key)) = ''OK'' \<and>
          fst (node_process_command n3 (''GET '' @ key)) = ''NOT_FOUND'' \<and>
          fst (node_process_command n4 (''DELETE '' @ key)) = ''OK''"
    unfolding Let_def put_command[OF k v] get_command[OF k] delete_command[OF k]
    by (simp add: get_after_put get_after_delete)
next
  assume "is_word key"
  then show "fst (node_process_command m (''DELETE '' @ key)) = ''OK''"
    using delete_command[of key m] by simp
qed

text \<open>A key and a value with a space in it, on a fresh node.\<close>

theorem node_round_trip_witness:
  "is_word ''user:42'' \<and> is_value ''Ada Lovelace'' \<and>
   fst (node_process_command
          (snd (node_process_command \<lparr>node_id = ''127.0.0.1:5001'', data = [], outbox = []\<rparr>
                  (''PUT '' @ ''user:42'' @ '' '' @ ''Ada Lovelace'')))
          (''GET '' @ ''user:42'')) = ''VALUE '' @ ''Ada Lovelace'' \<and>
   fst (node_process_command \<lparr>node_id = ''127.0.0.1:5001'', data = [], outbox = []\<rparr>
          (''DELETE '' @ ''user:42'')) = ''OK''"
proof -
  have k: "is_word ''user:42''" by (simp add: is_word_def is_space_def)
  have v: "is_value ''Ada Lovelace''" by (simp add: is_value_def is_space_def)
  from node_round_trip[of "\<lparr>node_id = ''127.0.0.1:5001'', data = [], outbox = []\<rparr>"
      "''user:42''" "''Ada Lovelace''" "\<lparr>node_id = ''127.0.0.1:5001'', data = [], outbox = []\<rparr>"] k v
  show ?thesis by (simp add: Let_def)
qed

subsection \<open>Replication on \<open>PUT\<close>\<close>

text \<open>
  \<open>command.split(maxsplit=2)\<close> yields at most three parts, so the test
  \<open>len(parts) > 3\<close> in the \<open>PUT\<close> branch never holds: no command makes the
  node start a replication push.
\<close>

lemma outbox_put: "outbox (node_put n k v) = outbox n"
  by (simp add: node_put_def)

lemma outbox_delete: "outbox (node_delete n k) = outbox n"
  by (simp add: node_delete_def)

lemma node_never_pushes: "outbox (snd (node_process_command n command)) = outbox n"
proof -
  have "\<not> 3 < length (split_ws 2 command)"
    using length_split_ws[of 2 command] by simp
  then show ?thesis
    by (simp add: node_process_command_def Let_def outbox_put outbox_delete split: option.splits)
qed

text \<open>\<open>_replicate_to_nodes\<close> itself, when called, pushes to each replica.\<close>

lemma replicate_to_nodes_pushes:
  "outbox (replicate_to_nodes \<lparr>node_id = ''127.0.0.1:5001'', data = [(''k'', ''v'')], outbox = []\<rparr>
             ''k'' ''v'' (split_on CHR '','' ''127.0.0.1:5002,127.0.0.1:5003''))
   = [(''127.0.0.1'', 5002, ''REPLICATE k v''), (''127.0.0.1'', 5003, ''REPLICATE k v'')]"
  by (simp add: py_int_def strip_int_def is_int_space_def is_digit_def digits_value_def Let_def)

text \<open>
  C1 at a concrete command. \<open>PUT k v 127.0.0.1:5002,127.0.0.1:5003\<close> answers
  \<open>OK\<close>, but the replica list ends up inside the stored value and no
  \<open>REPLICATE\<close> push is started.
\<close>

theorem put_with_replica_list_evaluated:
  "node_process_command \<lparr>node_id = ''127.0.0.1:5001'', data = [], outbox = []\<rparr>
     ''PUT k v 127.0.0.1:5002,127.0.0.1:5003''
   = (''OK'', \<lparr>node_id = ''127.0.0.1:5001'',
               data = [(''k'', ''v 127.0.0.1:5002,127.0.0.1:5003'')], outbox = []\<rparr>)"
  by (simp add: node_process_command_def Let_def numeral_2_eq_2 is_space_def node_put_def)

section \<open>The registry\<close>

subsection \<open>Commands and registration\<close>

lemma split_all_word:
  assumes "is_word w" and "rest = [] \<or> is_space (hd rest)"
  shows "split_all (w @ rest) = w # split_all rest"
proof -
  from assms(1) have "w @ rest \<noteq> []" by (simp add: is_word_def)
  then show ?thesis
    by (subst split_all.simps) (simp add: word_split[OF assms] Let_def)
qed

lemma split_all_Nil: "split_all [] = []"
  by (simp add: split_all.simps)

lemma split_all_space: "is_space c \<Longrightarrow> split_all (c # s) = split_all s"
  by (simp add: split_all.simps[of "c # s"] split_all.simps[of s])

lemma split_all_3:
  assumes "is_word cmd" and "is_word a" and "is_word b"
  shows "split_all (cmd @ '' '' @ a @ '' '' @ b) = [cmd, a, b]"
proof -
  have sp: "is_space CHR '' ''" by (simp add: is_space_def)
  have "split_all (cmd @ (CHR '' '' # a @ CHR '' '' # b))
        = cmd # split_all (CHR '' '' # a @ CHR '' '' # b)"
    by (rule split_all_word[OF assms(1)]) (simp add: sp)
  also have "split_all (CHR '' '' # a @ CHR '' '' # b) = split_all (a @ CHR '' '' # b)"
    by (rule split_all_space[OF sp])
  also have "\<dots> = a # split_all (CHR '' '' # b)"
    by (rule split_all_word[OF assms(2)]) (simp add: sp)
  also have "split_all (CHR '' '' # b) = split_all (b @ [])"
    using split_all_space[OF sp, of b] by simp
  also have "\<dots> = b # split_all []"
    by (rule split_all_word[OF assms(3)]) simp
  finally show ?thesis by (simp add: split_all_Nil)
qed

lemma unlock_id: "\<not> coord_lock c \<Longrightarrow> c\<lparr>coord_lock := False\<rparr> = c"
  by (cases c) simp

lemma word_REGISTER: "is_word ''REGISTER_NODE''"
  and word_GET_NODES: "is_word ''GET_NODES_FOR_KEY''"
  by (simp_all add: is_word_def is_space_def)

lemma register_command:
  assumes "is_word h" and "is_word p"
  shows "coord_process_command H c (''REGISTER_NODE '' @ h @ '' '' @ p) now
         = register_node H c h p now"
  using split_all_3[OF word_REGISTER assms]
  by (simp add: coord_process_command_def Let_def)

lemma register_known:
  assumes "h @ '':'' @ p \<in> fst ` set (coord_nodes c)" and "\<not> coord_lock c"
  shows "register_node H c h p now =
         (Return (''WARNING Node '' @ h @ '':'' @ p @ '' already registered''), c)"
  using assms by (simp add: register_node_def with_lock_def Let_def unlock_id)

lemma register_new:
  assumes "h @ '':'' @ p \<notin> fst ` set (coord_nodes c)" and "\<not> coord_lock c"
    and "py_int p = Some pn"
  shows "register_node H c h p now =
         (Return (''OK Node '' @ h @ '':'' @ p @ '' registered''),
          c\<lparr>coord_nodes := AList.update (h @ '':'' @ p)
                              \<lparr>host = h, port = pn, last_heartbeat = now\<rparr> (coord_nodes c),
            coord_ring := add_node H (coord_ring c) (h @ '':'' @ p)\<rparr>)"
proof -
  have "c\<lparr>coord_lock := True,
          coord_nodes := AList.update (h @ '':'' @ p)
                              \<lparr>host = h, port = pn, last_heartbeat = now\<rparr> (coord_nodes c),
          coord_ring := add_node H (coord_ring c) (h @ '':'' @ p), coord_lock := False\<rparr>
        = c\<lparr>coord_nodes := AList.update (h @ '':'' @ p)
                              \<lparr>host = h, port = pn, last_heartbeat = now\<rparr> (coord_nodes c),
            coord_ring := add_node H (coord_ring c) (h @ '':'' @ p)\<rparr>"
    using assms(2) by (cases c) simp
  with assms show ?thesis
    by (simp add: register_node_def with_lock_def Let_def)
qed

text \<open>
  C6, as the code has it. \<open>REGISTER_NODE\<close> for a node id that is already in the
  liveness table, served while the lock is free, answers with a warning (not
  an error, not an exception) and leaves the registry exactly as it was: the
  entry, its \<open>last_heartbeat\<close> included, and the ring. Stated for
  \<open>_register_node\<close> and for the command as it arrives on the wire.
\<close>

theorem reregister_warns:
  "(h @ '':'' @ p \<in> fst ` set (coord_nodes c) \<and> \<not> coord_lock c \<longrightarrow>
      register_node H c h p now =
        (Return (''WARNING Node '' @ h @ '':'' @ p @ '' already registered''), c)) \<and>
   (h @ '':'' @ p \<in> fst ` set (coord_nodes c) \<and> \<not> coord_lock c \<and> is_word h \<and> is_word p \<longrightarrow>
      coord_process_command H c (''REGISTER_NODE '' @ h @ '' '' @ p) now =
        (Return (''WARNING Node '' @ h @ '':'' @ p @ '' already registered''), c))"
  using register_known[of h p c H now] register_command[of h p H c now] by auto

lemma py_int_5001: "py_int ''5001'' = Some 5001"
  by (simp add: py_int_def strip_int_def is_int_space_def is_digit_def digits_value_def Let_def)

lemma word_localhost: "is_word ''127.0.0.1''" and word_5001: "is_word ''5001''"
  by (simp_all add: is_word_def is_space_def)

lemma first_registration:
  "coord_run H [Command ''REGISTER_NODE 127.0.0.1 5001'' t] =
     \<lparr>coord_ring = add_node H empty_ring ''127.0.0.1:5001'',
      coord_nodes = [(''127.0.0.1:5001'', \<lparr>host = ''127.0.0.1'', port = 5001, last_heartbeat = t\<rparr>)],
      coord_lock = False\<rparr>"
proof -
  have "register_node H init_coordinator ''127.0.0.1'' ''5001'' t =
         (Return (''OK Node '' @ ''127.0.0.1'' @ '':'' @ ''5001'' @ '' registered''),
          init_coordinator\<lparr>coord_nodes := AList.update (''127.0.0.1'' @ '':'' @ ''5001'')
                              \<lparr>host = ''127.0.0.1'', port = 5001, last_heartbeat = t\<rparr>
                              (coord_nodes init_coordinator),
            coord_ring := add_node H (coord_ring init_coordinator) (''127.0.0.1'' @ '':'' @ ''5001'')\<rparr>)"
    by (rule register_new) (simp_all add: init_coordinator_def py_int_5001)
  then show ?thesis
    using register_command[OF word_localhost word_5001, of H init_coordinator t]
    by (simp add: coord_run_def init_coordinator_def)
qed

text \<open>The same node registering at time 0 and again at time 5.\<close>

theorem reregister_warns_witness:
  "''127.0.0.1'' @ '':'' @ ''5001''
     \<in> fst ` set (coord_nodes (coord_run bytes_hash [Command ''REGISTER_NODE 127.0.0.1 5001'' 0])) \<and>
   \<not> coord_lock (coord_run bytes_hash [Command ''REGISTER_NODE 127.0.0.1 5001'' 0]) \<and>
   is_word ''127.0.0.1'' \<and> is_word ''5001'' \<and>
   coord_process_command bytes_hash (coord_run bytes_hash [Command ''REGISTER_NODE 127.0.0.1 5001'' 0])
     (''REGISTER_NODE '' @ ''127.0.0.1'' @ '' '' @ ''5001'') 5 =
     (Return (''WARNING Node '' @ ''127.0.0.1'' @ '':'' @ ''5001'' @ '' already registered''),
      coord_run bytes_hash [Command ''REGISTER_NODE 127.0.0.1 5001'' 0])"
proof -
  let ?c = "coord_run bytes_hash [Command ''REGISTER_NODE 127.0.0.1 5001'' 0]"
  have a: "''127.0.0.1'' @ '':'' @ ''5001'' \<in> fst ` set (coord_nodes ?c)"
    and b: "\<not> coord_lock ?c"
    by (simp_all add: first_registration)
  from reregister_warns[of "''127.0.0.1''" "''5001''" ?c bytes_hash 5] a b
    word_localhost word_5001
  show ?thesis by blast
qed

text \<open>
  C6 as first stated has the repeated registration refresh the timestamp to the
  current time; after registering at 0 and again at 5 the entry still carries 0.
\<close>

theorem reregister_timestamp_counterexample:
  "fst (coord_process_command bytes_hash
          (coord_run bytes_hash [Command ''REGISTER_NODE 127.0.0.1 5001'' 0])
          ''REGISTER_NODE 127.0.0.1 5001'' 5)
     = Return ''WARNING Node 127.0.0.1:5001 already registered'' \<and>
   map_option last_heartbeat
     (map_of (coord_nodes (coord_run bytes_hash
                [Command ''REGISTER_NODE 127.0.0.1 5001'' 0,
                 Command ''REGISTER_NODE 127.0.0.1 5001'' 5]))
        ''127.0.0.1:5001'') = Some 0"
proof -
  let ?c = "coord_run bytes_hash [Command ''REGISTER_NODE 127.0.0.1 5001'' 0]"
  have a: "''127.0.0.1'' @ '':'' @ ''5001'' \<in> fst ` set (coord_nodes ?c)"
    and b: "\<not> coord_lock ?c"
    by (simp_all add: first_registration)
  have r: "coord_process_command bytes_hash ?c (''REGISTER_NODE '' @ ''127.0.0.1'' @ '' '' @ ''5001'') 5
        = (Return (''WARNING Node '' @ ''127.0.0.1'' @ '':'' @ ''5001'' @ '' already registered''), ?c)"
    using register_known[OF a b, of bytes_hash 5]
      register_command[OF word_localhost word_5001, of bytes_hash ?c 5] by simp
  have "coord_run bytes_hash [Command ''REGISTER_NODE 127.0.0.1 5001'' 0,
                 Command ''REGISTER_NODE 127.0.0.1 5001'' 5]
        = snd (coord_process_command bytes_hash ?c ''REGISTER_NODE 127.0.0.1 5001'' 5)"
    by (simp add: coord_run_def)
  also have "\<dots> = ?c" using r by simp
  finally have "coord_run bytes_hash [Command ''REGISTER_NODE 127.0.0.1 5001'' 0,
                 Command ''REGISTER_NODE 127.0.0.1 5001'' 5] = ?c" .
  then show ?thesis using r by (simp add: first_registration)
qed

subsection \<open>The liveness sweep\<close>

lemma dead_nodes_index:
  "dead_nodes fsub clock entries =
     map (\<lambda>i. fst (entries ! i))
       (filter (\<lambda>i. 10 < fsub (clock i) (last_heartbeat (snd (entries ! i)))) [0..<length entries])"
proof -
  have "map (\<lambda>(i, nid, info). nid)
          (filter (\<lambda>(i, nid, info). 10 < fsub (clock i) (last_heartbeat info)) (enumerate k es))
        = map (\<lambda>i. fst (es ! (i - k)))
            (filter (\<lambda>i. 10 < fsub (clock i) (last_heartbeat (snd (es ! (i - k))))) [k..<k + length es])"
    for k and es :: "(string \<times> node_info) list"
  proof (induction es arbitrary: k)
    case Nil
    then show ?case by simp
  next
    case (Cons e es)
    obtain nid info where e: "e = (nid, info)" by (cases e)
    have up: "[k..<k + length (e # es)] = k # [Suc k..<Suc k + length es]"
      by (simp add: upt_rec)
    have shift: "map (\<lambda>i. fst ((e # es) ! (i - k)))
            (filter (\<lambda>i. 10 < fsub (clock i) (last_heartbeat (snd ((e # es) ! (i - k)))))
               [Suc k..<Suc k + length es])
          = map (\<lambda>i. fst (es ! (i - Suc k)))
            (filter (\<lambda>i. 10 < fsub (clock i) (last_heartbeat (snd (es ! (i - Suc k)))))
               [Suc k..<Suc k + length es])"
    proof -
      have "(e # es) ! (i - k) = es ! (i - Suc k)" if "i \<in> set [Suc k..<Suc k + length es]" for i
      proof -
        from that have "Suc k \<le> i" by (simp only: set_upt atLeastLessThan_iff)
        then have "i - k = Suc (i - Suc k)" by simp
        then show ?thesis by simp
      qed
      then show ?thesis
        by (intro map_cong filter_cong refl) (simp_all)
    qed
    show ?case
      unfolding up using Cons.IH[of "Suc k"] shift by (simp add: e)
  qed
  from this[of 0 entries] show ?thesis by (simp add: dead_nodes_def)
qed

lemma unregister_node_locked: "coord_lock c \<Longrightarrow> unregister_node c h p = (Hang, c)"
  by (simp add: unregister_node_def with_lock_def Let_def)

lemma unregister_dead_locked: "coord_lock c \<Longrightarrow> snd (unregister_dead c ds) = c"
  by (cases ds) (simp_all add: unregister_node_locked split: list.splits)

lemma unregister_dead_locked_outcome:
  "coord_lock c \<Longrightarrow> ds \<noteq> [] \<Longrightarrow> fst (unregister_dead c ds) \<noteq> Return ()"
  by (cases ds) (simp_all add: unregister_node_locked split: list.splits)

lemma sweep_tables:
  "coord_nodes (snd (heartbeat_sweep fsub clock c)) = coord_nodes c"
  "coord_ring (snd (heartbeat_sweep fsub clock c)) = coord_ring c"
proof -
  let ?b = "unregister_dead (c\<lparr>coord_lock := True\<rparr>) (dead_nodes fsub clock (coord_nodes c))"
  have s: "snd ?b = c\<lparr>coord_lock := True\<rparr>" by (rule unregister_dead_locked) simp
  obtain out c' where b: "?b = (out, c')" by (cases ?b)
  with s have c': "c' = c\<lparr>coord_lock := True\<rparr>" by simp
  show "coord_nodes (snd (heartbeat_sweep fsub clock c)) = coord_nodes c"
    using b c' by (cases out) (simp_all add: heartbeat_sweep_def with_lock_def)
  show "coord_ring (snd (heartbeat_sweep fsub clock c)) = coord_ring c"
    using b c' by (cases out) (simp_all add: heartbeat_sweep_def with_lock_def)
qed

lemma sweep_nothing_stale:
  assumes "\<not> coord_lock c" and "dead_nodes fsub clock (coord_nodes c) = []"
  shows "heartbeat_sweep fsub clock c = (Return (), c)"
  using assms by (simp add: heartbeat_sweep_def with_lock_def unlock_id)

text \<open>
  With at least one stale entry the sweep does not complete: \<open>_unregister_node\<close>
  asks for the lock the sweep itself is holding.
\<close>

lemma sweep_stale_never_returns:
  assumes "dead_nodes fsub clock (coord_nodes c) \<noteq> []"
  shows "fst (heartbeat_sweep fsub clock c) \<noteq> Return ()"
proof (cases "coord_lock c")
  case True
  then show ?thesis by (simp add: heartbeat_sweep_def with_lock_def)
next
  case False
  let ?b = "unregister_dead (c\<lparr>coord_lock := True\<rparr>) (dead_nodes fsub clock (coord_nodes c))"
  have "fst ?b \<noteq> Return ()"
    by (rule unregister_dead_locked_outcome) (simp_all add: assms)
  then show ?thesis
    using False by (cases ?b; cases "fst ?b") (auto simp: heartbeat_sweep_def with_lock_def)
qed

subsection \<open>Ring and liveness table stay in step\<close>

lemma nodes_add_node: "nodes (add_node H r x) = insert x (nodes r)"
  by (auto simp: add_node_def Let_def)

lemma nodes_remove_node: "nodes (remove_node r x) = nodes r - {x}"
  by (auto simp: remove_node_def Let_def)

lemma keys_delete: "fst ` set (AList.delete k al) = fst ` set al - {k}"
proof -
  have "set (map fst (AList.delete k al)) = set (map fst al) - {k}"
    by (simp only: delete_keys set_removeAll)
  then show ?thesis by simp
qed

lemma coord_inv_lock [simp]: "coord_inv (c\<lparr>coord_lock := b\<rparr>) = coord_inv c"
  by (simp add: coord_inv_def)

lemma coord_inv_init: "coord_inv init_coordinator"
  by (simp add: coord_inv_def init_coordinator_def ring_inv_empty) (simp add: empty_ring_def)

lemma with_lock_inv:
  assumes "\<And>c'. coord_inv c' \<Longrightarrow> coord_inv (snd (body c'))" and "coord_inv c"
  shows "coord_inv (snd (with_lock c body))"
proof (cases "coord_lock c")
  case True
  with assms(2) show ?thesis by (simp add: with_lock_def)
next
  case False
  obtain out c' where b: "body (c\<lparr>coord_lock := True\<rparr>) = (out, c')"
    by (cases "body (c\<lparr>coord_lock := True\<rparr>)")
  have "coord_inv (snd (body (c\<lparr>coord_lock := True\<rparr>)))"
    by (rule assms(1)) (simp add: assms(2))
  with b have "coord_inv c'" by simp
  with b False show ?thesis by (cases out) (simp_all add: with_lock_def)
qed

lemma register_node_inv:
  assumes "coord_inv c"
  shows "coord_inv (snd (register_node H c h p now))"
  unfolding register_node_def Let_def
proof (rule with_lock_inv[OF _ assms])
  fix c' assume "coord_inv c'"
  then show "coord_inv (snd (if h @ '':'' @ p \<in> fst ` set (coord_nodes c')
           then (Return (''WARNING Node '' @ (h @ '':'' @ p) @ '' already registered''), c')
           else (case py_int p of
                   None \<Rightarrow> (Raise (int_error p), c')
                 | Some pn \<Rightarrow>
                     (Return (''OK Node '' @ (h @ '':'' @ p) @ '' registered''),
                      c'\<lparr>coord_nodes :=
                           AList.update (h @ '':'' @ p) \<lparr>host = h, port = pn, last_heartbeat = now\<rparr>
                             (coord_nodes c'),
                         coord_ring := add_node H (coord_ring c') (h @ '':'' @ p)\<rparr>))))"
    by (auto simp: coord_inv_def ring_inv_add nodes_add_node dom_update split: option.splits)
qed

lemma unregister_node_inv:
  assumes "coord_inv c"
  shows "coord_inv (snd (unregister_node c h p))"
  unfolding unregister_node_def Let_def
proof (rule with_lock_inv[OF _ assms])
  fix c' assume "coord_inv c'"
  then show "coord_inv (snd (if h @ '':'' @ p \<notin> fst ` set (coord_nodes c')
           then (Return (''ERROR Node '' @ (h @ '':'' @ p) @ '' not found''), c')
           else (Return (''OK Node '' @ (h @ '':'' @ p) @ '' unregistered''),
                 c'\<lparr>coord_nodes := AList.delete (h @ '':'' @ p) (coord_nodes c'),
                    coord_ring := remove_node (coord_ring c') (h @ '':'' @ p)\<rparr>)))"
    by (simp add: coord_inv_def ring_inv_remove nodes_remove_node keys_delete)
qed

lemma unregister_dead_inv: "coord_inv c \<Longrightarrow> coord_inv (snd (unregister_dead c ds))"
proof (induction ds arbitrary: c)
  case Nil
  then show ?case by simp
next
  case (Cons nid ds)
  show ?case
  proof (cases "\<exists>h p. split_on CHR '':'' nid = [h, p]")
    case False
    then show ?thesis using Cons.prems by (simp split: list.splits)
  next
    case True
    then obtain h p where hp: "split_on CHR '':'' nid = [h, p]" by auto
    obtain out c' where u: "unregister_node c h p = (out, c')" by (cases "unregister_node c h p")
    have "coord_inv c'" using unregister_node_inv[OF Cons.prems, of h p] u by simp
    then show ?thesis using hp u Cons.IH[of c'] by (cases out) simp_all
  qed
qed

lemma heartbeat_sweep_inv: "coord_inv c \<Longrightarrow> coord_inv (snd (heartbeat_sweep fsub clock c))"
  unfolding heartbeat_sweep_def
  by (rule with_lock_inv) (simp_all add: unregister_dead_inv)

lemma get_nodes_for_key_state:
  "snd (get_nodes_for_key H c key) = c \<or> snd (get_nodes_for_key H c key) = c\<lparr>coord_lock := False\<rparr>"
proof (cases "coord_lock c")
  case True
  then show ?thesis by (simp add: get_nodes_for_key_def with_lock_def)
next
  case False
  then show ?thesis
    by (cases "get_nodes H (coord_ring c) key 3")
      (simp_all add: get_nodes_for_key_def with_lock_def)
qed

lemma list_nodes_state:
  "snd (list_nodes c) = c \<or> snd (list_nodes c) = c\<lparr>coord_lock := False\<rparr>"
  by (simp add: list_nodes_def with_lock_def)

lemma coord_process_command_inv:
  assumes "coord_inv c"
  shows "coord_inv (snd (coord_process_command H c command now))"
proof -
  have g: "coord_inv (snd (get_nodes_for_key H c k))" for k
    using get_nodes_for_key_state[of H c k] assms by auto
  have l: "coord_inv (snd (list_nodes c))"
    using list_nodes_state[of c] assms by auto
  show ?thesis
    using assms g l
    by (simp add: coord_process_command_def Let_def register_node_inv unregister_node_inv)
qed

lemma coord_inv_foldl: "coord_inv c \<Longrightarrow> coord_inv (foldl (coord_step H) c evs)"
proof (induction evs arbitrary: c)
  case Nil
  then show ?case by simp
next
  case (Cons ev evs)
  then show ?case
    by (cases ev) (simp_all add: coord_process_command_inv heartbeat_sweep_inv)
qed

lemma coord_inv_run: "coord_inv (coord_run H evs)"
  by (simp add: coord_run_def coord_inv_foldl coord_inv_init)

text \<open>
  C5 at a concrete registry. A node registers at time 0 and a sweep examines
  its entry at time 11, so the elapsed time, 11, is above the threshold
  (\<open>fsub 11 0 = 11\<close>: float subtraction is exact here). The entry is marked
  dead, but it is not removed from the liveness table nor from the ring: the
  sweep calls \<open>_unregister_node\<close> while it holds the lock, and never returns.
\<close>

theorem sweep_stale_entry_not_evicted:
  "fsub 11 0 = 11 \<longrightarrow>
     dead_nodes fsub (steady_clock 11)
       (coord_nodes (coord_run H [Command ''REGISTER_NODE 127.0.0.1 5001'' 0]))
       = [''127.0.0.1:5001''] \<and>
     heartbeat_sweep fsub (steady_clock 11)
       (coord_run H [Command ''REGISTER_NODE 127.0.0.1 5001'' 0])
       = (Hang, (coord_run H [Command ''REGISTER_NODE 127.0.0.1 5001'' 0])\<lparr>coord_lock := True\<rparr>) \<and>
     ''127.0.0.1:5001''
       \<in> fst ` set (coord_nodes (snd (heartbeat_sweep fsub (steady_clock 11)
                (coord_run H [Command ''REGISTER_NODE 127.0.0.1 5001'' 0])))) \<and>
     ''127.0.0.1:5001''
       \<in> nodes (coord_ring (snd (heartbeat_sweep fsub (steady_clock 11)
                (coord_run H [Command ''REGISTER_NODE 127.0.0.1 5001'' 0]))))"
proof
  assume e: "fsub 11 0 = 11"
  let ?c = "coord_run H [Command ''REGISTER_NODE 127.0.0.1 5001'' 0]"
  have d: "dead_nodes fsub (steady_clock 11) (coord_nodes ?c) = [''127.0.0.1:5001'']"
    using e by (simp add: first_registration dead_nodes_def steady_clock_def)
  have h: "heartbeat_sweep fsub (steady_clock 11) ?c = (Hang, ?c\<lparr>coord_lock := True\<rparr>)"
    using d by (simp add: heartbeat_sweep_def first_registration with_lock_def
        unregister_node_def Let_def)
  have t: "''127.0.0.1:5001'' \<in> fst ` set (coord_nodes ?c)"
    and r: "''127.0.0.1:5001'' \<in> nodes (coord_ring ?c)"
    by (simp_all add: first_registration nodes_add_node)
  from d h t r show
    "dead_nodes fsub (steady_clock 11) (coord_nodes ?c) = [''127.0.0.1:5001''] \<and>
     heartbeat_sweep fsub (steady_clock 11) ?c = (Hang, ?c\<lparr>coord_lock := True\<rparr>) \<and>
     ''127.0.0.1:5001''
       \<in> fst ` set (coord_nodes (snd (heartbeat_sweep fsub (steady_clock 11) ?c))) \<and>
     ''127.0.0.1:5001''
       \<in> nodes (coord_ring (snd (heartbeat_sweep fsub (steady_clock 11) ?c)))"
    by (simp add: sweep_tables)
qed

text \<open>The same with the exact difference standing in for float subtraction.\<close>

theorem sweep_stale_entry_not_evicted_witness:
  "exact_sub 11 0 = 11 \<and>
   heartbeat_sweep exact_sub (steady_clock 11)
     (coord_run bytes_hash [Command ''REGISTER_NODE 127.0.0.1 5001'' 0])
     = (Hang, (coord_run bytes_hash
                 [Command ''REGISTER_NODE 127.0.0.1 5001'' 0])\<lparr>coord_lock := True\<rparr>) \<and>
   ''127.0.0.1:5001''
     \<in> fst ` set (coord_nodes (snd (heartbeat_sweep exact_sub (steady_clock 11)
              (coord_run bytes_hash [Command ''REGISTER_NODE 127.0.0.1 5001'' 0]))))"
proof -
  have e: "exact_sub 11 0 = 11" by (simp add: exact_sub_def)
  from sweep_stale_entry_not_evicted[of exact_sub bytes_hash] e show ?thesis by blast
qed

text \<open>
  At an elapsed time of exactly 10 the entry is not even marked: the test is
  strict, and the sweep completes with the registry as it was.
\<close>

lemma sweep_at_threshold:
  "fsub 10 0 = 10 \<Longrightarrow>
   heartbeat_sweep fsub (steady_clock 10) (coord_run H [Command ''REGISTER_NODE 127.0.0.1 5001'' 0])
     = (Return (), coord_run H [Command ''REGISTER_NODE 127.0.0.1 5001'' 0])"
proof -
  assume e: "fsub 10 0 = 10"
  let ?c = "coord_run H [Command ''REGISTER_NODE 127.0.0.1 5001'' 0]"
  have l: "\<not> coord_lock ?c" by (simp add: first_registration)
  have d: "dead_nodes fsub (steady_clock 10) (coord_nodes ?c) = []"
    using e by (simp add: first_registration dead_nodes_def steady_clock_def)
  show ?thesis by (rule sweep_nothing_stale[OF l d])
qed

text \<open>
  After the blocked sweep the lock stays held, and the registry answers no
  further command.
\<close>

lemma registry_hangs_after_stale_sweep:
  "fsub 11 0 = 11 \<Longrightarrow>
   fst (coord_process_command H
          (coord_run H [Command ''REGISTER_NODE 127.0.0.1 5001'' 0, Sweep fsub (steady_clock 11)])
          ''LIST_NODES'' now) = Hang"
proof -
  assume e: "fsub 11 0 = 11"
  let ?c = "coord_run H [Command ''REGISTER_NODE 127.0.0.1 5001'' 0]"
  have d: "dead_nodes fsub (steady_clock 11) (coord_nodes ?c) = [''127.0.0.1:5001'']"
    using e by (simp add: first_registration dead_nodes_def steady_clock_def)
  have h: "heartbeat_sweep fsub (steady_clock 11) ?c = (Hang, ?c\<lparr>coord_lock := True\<rparr>)"
    using d by (simp add: heartbeat_sweep_def first_registration with_lock_def
        unregister_node_def Let_def)
  have "coord_run H [Command ''REGISTER_NODE 127.0.0.1 5001'' 0, Sweep fsub (steady_clock 11)]
        = snd (heartbeat_sweep fsub (steady_clock 11) ?c)"
    by (simp add: coord_run_def)
  also have "\<dots> = ?c\<lparr>coord_lock := True\<rparr>" using h by simp
  finally have c: "coord_run H [Command ''REGISTER_NODE 127.0.0.1 5001'' 0, Sweep fsub (steady_clock 11)]
        = ?c\<lparr>coord_lock := True\<rparr>" .
  have w: "is_word ''LIST_NODES''" by (simp add: is_word_def is_space_def)
  have "split_all ''LIST_NODES'' = [''LIST_NODES'']"
    using split_all_word[OF w, of "[]"] by (simp add: split_all_Nil)
  then show ?thesis
    unfolding c by (simp add: coord_process_command_def Let_def list_nodes_def with_lock_def)
qed

subsection \<open>Placement queries on an empty registry\<close>

lemma get_nodes_for_key_empty:
  assumes "ring (coord_ring c) = []" and "\<not> coord_lock c"
  shows "get_nodes_for_key H c x = (Return ''ERROR Ring is empty, no nodes available'', c)"
  using assms by (simp add: get_nodes_for_key_def with_lock_def get_nodes_def unlock_id)

lemma get_nodes_command_parts:
  "split_all (''GET_NODES_FOR_KEY '' @ k) = ''GET_NODES_FOR_KEY'' # split_all k"
proof -
  have sp: "is_space CHR '' ''" by (simp add: is_space_def)
  have "split_all (''GET_NODES_FOR_KEY'' @ (CHR '' '' # k))
        = ''GET_NODES_FOR_KEY'' # split_all (CHR '' '' # k)"
    by (rule split_all_word[OF word_GET_NODES]) (simp add: sp)
  then show ?thesis using split_all_space[OF sp, of k] by simp
qed

lemma split_all_one_word: "is_word k \<Longrightarrow> split_all k = [k]"
  using split_all_word[of k "[]"] by (simp add: split_all_Nil)

lemma get_nodes_command_empty:
  assumes "ring (coord_ring c) = []" and "\<not> coord_lock c"
  shows "coord_process_command H c (''GET_NODES_FOR_KEY '' @ k) now =
         (if split_all k = [] then (Return ''ERROR Invalid GET_NODES_FOR_KEY format'', c)
          else (Return ''ERROR Ring is empty, no nodes available'', c))"
proof (cases "split_all k")
  case Nil
  with get_nodes_command_parts[of k] show ?thesis
    by (simp add: coord_process_command_def Let_def)
next
  case (Cons a as)
  with get_nodes_command_parts[of k] get_nodes_for_key_empty[OF assms, of H a] show ?thesis
    by (simp add: coord_process_command_def Let_def)
qed

text \<open>
  C8. On a ring with no members, reached by any sequence of \<open>add_node\<close> and
  \<open>remove_node\<close> calls, \<open>get_node\<close> and \<open>get_nodes\<close> raise the empty-ring
  error for every key and count. On a registry with no nodes registered and
  its lock free, \<open>GET_NODES_FOR_KEY\<close> returns an \<open>ERROR\<close> response whatever
  follows the command word, and for a one-word key the response is the
  empty-ring message.
\<close>

theorem empty_ring_lookup_fails:
  "(nodes (run_ops H ops) = {} \<longrightarrow>
      get_node H (run_ops H ops) key = Inl (ValueError ''Ring is empty, no nodes available'') \<and>
      get_nodes H (run_ops H ops) key count
        = Inl (ValueError ''Ring is empty, no nodes available'')) \<and>
   (coord_nodes (coord_run H evs) = [] \<and> \<not> coord_lock (coord_run H evs) \<longrightarrow>
      (\<exists>msg. fst (coord_process_command H (coord_run H evs) (''GET_NODES_FOR_KEY '' @ k) now)
               = Return (''ERROR '' @ msg)) \<and>
      (is_word k \<longrightarrow>
         fst (coord_process_command H (coord_run H evs) (''GET_NODES_FOR_KEY '' @ k) now)
           = Return ''ERROR Ring is empty, no nodes available''))"
proof (intro conjI impI)
  assume e: "nodes (run_ops H ops) = {}"
  have "ring (run_ops H ops) = []"
    by (rule empty_members_empty_ring[OF ring_inv_run e])
  then show "get_node H (run_ops H ops) key = Inl (ValueError ''Ring is empty, no nodes available'')"
    and "get_nodes H (run_ops H ops) key count = Inl (ValueError ''Ring is empty, no nodes available'')"
    by (simp_all add: get_node_def get_nodes_def)
next
  let ?c = "coord_run H evs"
  assume a: "coord_nodes ?c = [] \<and> \<not> coord_lock ?c"
  have inv: "coord_inv ?c" by (rule coord_inv_run)
  with a have "nodes (coord_ring ?c) = {}" by (simp add: coord_inv_def)
  with inv have r: "ring (coord_ring ?c) = []"
    by (intro empty_members_empty_ring) (simp_all add: coord_inv_def)
  from a have l: "\<not> coord_lock ?c" by simp
  note cmd = get_nodes_command_empty[OF r l, of H k now]
  show "\<exists>msg. fst (coord_process_command H ?c (''GET_NODES_FOR_KEY '' @ k) now)
               = Return (''ERROR '' @ msg)"
  proof (cases "split_all k = []")
    case True
    with cmd have "fst (coord_process_command H ?c (''GET_NODES_FOR_KEY '' @ k) now)
        = Return (''ERROR '' @ ''Invalid GET_NODES_FOR_KEY format'')" by simp
    then show ?thesis by (rule exI)
  next
    case False
    with cmd have "fst (coord_process_command H ?c (''GET_NODES_FOR_KEY '' @ k) now)
        = Return (''ERROR '' @ ''Ring is empty, no nodes available'')" by simp
    then show ?thesis by (rule exI)
  qed
  assume "is_word k"
  then have "split_all k = [k]" by (rule split_all_one_word)
  with cmd show "fst (coord_process_command H ?c (''GET_NODES_FOR_KEY '' @ k) now)
           = Return ''ERROR Ring is empty, no nodes available''" by simp
qed

text \<open>A ring emptied again, and a registry just started.\<close>

theorem empty_ring_lookup_fails_witness:
  "nodes (run_ops bytes_hash [Add ''a'', Remove ''a'']) = {} \<and>
   get_node bytes_hash (run_ops bytes_hash [Add ''a'', Remove ''a'']) ''user:42''
     = Inl (ValueError ''Ring is empty, no nodes available'') \<and>
   get_nodes bytes_hash (run_ops bytes_hash [Add ''a'', Remove ''a'']) ''user:42'' 3
     = Inl (ValueError ''Ring is empty, no nodes available'') \<and>
   coord_nodes (coord_run bytes_hash []) = [] \<and> \<not> coord_lock (coord_run bytes_hash []) \<and>
   is_word ''anything'' \<and>
   fst (coord_process_command bytes_hash (coord_run bytes_hash [])
          (''GET_NODES_FOR_KEY '' @ ''anything'') 0)
     = Return ''ERROR Ring is empty, no nodes available''"
proof -
  have a: "nodes (run_ops bytes_hash [Add ''a'', Remove ''a'']) = {}"
    by (simp add: run_ops_def nodes_add_node nodes_remove_node empty_ring_def)
  have b: "coord_nodes (coord_run bytes_hash []) = [] \<and> \<not> coord_lock (coord_run bytes_hash [])"
    by (simp add: coord_run_def init_coordinator_def)
  have w: "is_word ''anything''" by (simp add: is_word_def is_space_def)
  from empty_ring_lookup_fails[of bytes_hash "[Add ''a'', Remove ''a'']" "''user:42''" 3
      "[]" "''anything''" 0] a b w
  show ?thesis by blast
qed

section \<open>Idempotent membership\<close>

text \<open>
  C9. Calling \<open>add_node x\<close> twice leaves the ring (slots, ordered positions and
  members) exactly as calling it once does, and so does calling \<open>remove_node x\<close>
  twice, from any ring state.
\<close>

theorem membership_idempotent:
  "add_node H (add_node H r x) x = add_node H r x \<and>
   remove_node (remove_node r x) x = remove_node r x"
  by (simp add: add_node_def remove_node_def Let_def)

end
